theory Spec2Isabelle
  imports Main "HOL-Library.Word"
begin

unbundle bit_operations_syntax

section \<open>Characters and the string primitives of the C++ library\<close>

type_synonym u32 = "32 word"
type_synonym u8 = "8 word"

text \<open>
  \<open>::isspace\<close> in the C locale: space, \<open>\t\<close>, \<open>\n\<close>, \<open>\v\<close>, \<open>\f\<close> and \<open>\r\<close>.
  Formatted extraction (\<open>ss >> mnemonic\<close>) skips and stops at the same six characters.
\<close>

definition isspace :: "char \<Rightarrow> bool" where
  "isspace c \<longleftrightarrow>
     c = CHR '' '' \<or> c = CHR 0x09 \<or> c = CHR 0x0A \<or> c = CHR 0x0B \<or> c = CHR 0x0C \<or> c = CHR 0x0D"

text \<open>
  The character set \<^verbatim>\<open>" \t\r\n"\<close> that the parser passes to \<open>find_first_not_of\<close> and
  \<open>find_last_not_of\<close>: four of the six whitespace characters.
\<close>

definition trim_char :: "char \<Rightarrow> bool" where
  "trim_char c \<longleftrightarrow> c = CHR '' '' \<or> c = CHR 0x09 \<or> c = CHR 0x0D \<or> c = CHR 0x0A"

text \<open>\<open>s.find(c)\<close>: the index of the first occurrence, \<open>None\<close> for \<open>npos\<close>.\<close>

fun find_char :: "char \<Rightarrow> string \<Rightarrow> nat option" where
  "find_char c [] = None"
| "find_char c (x # xs) = (if x = c then Some 0 else map_option Suc (find_char c xs))"

text \<open>\<open>s.substr(pos, n)\<close> for \<open>pos \<le> s.size()\<close> (every call of the parser is in range).\<close>

definition substr :: "string \<Rightarrow> nat \<Rightarrow> nat \<Rightarrow> string" where
  "substr s pos n = take n (drop pos s)"

text \<open>
  \<open>s.erase(0, s.find_first_not_of(" \t\r\n"))\<close>: the leading run goes; when every character
  is in the set the position is \<open>npos\<close> and the whole string goes.
\<close>

definition erase_leading :: "string \<Rightarrow> string" where
  "erase_leading s = dropWhile trim_char s"

text \<open>
  \<open>s.erase(s.find_last_not_of(" \t\r\n") + 1)\<close>: the trailing run goes; \<open>npos + 1\<close> wraps
  to 0, so a string of such characters only is emptied.
\<close>

definition erase_trailing :: "string \<Rightarrow> string" where
  "erase_trailing s = rev (dropWhile trim_char (rev s))"

text \<open>\<open>s.erase(remove_if(s.begin(), s.end(), ::isspace), s.end())\<close>.\<close>

definition remove_spaces :: "string \<Rightarrow> string" where
  "remove_spaces s = filter (\<lambda>c. \<not> isspace c) s"

section \<open>Errors\<close>

text \<open>Every \<open>exit(1)\<close> of the parser, with what its message carries.\<close>

datatype error =
    CouldNotOpenFile
  | DuplicateLabel string
  | IncorrectOperandCount string string
  | InvalidAddressFormat string string

section \<open>Pass 1: \<open>buildSymbolTable\<close>\<close>

type_synonym symtab = "string \<rightharpoonup> u32"

text \<open>
  One iteration of the loop over the lines, on the pair of the table and \<open>currentAddress\<close>.
\<close>

definition bst_line :: "symtab \<times> u32 \<Rightarrow> string \<Rightarrow> error + (symtab \<times> u32)" where
  "bst_line st line =
     (case st of (symbolTable, currentAddress) \<Rightarrow>
        if line \<noteq> [] \<and> hd line = CHR ''.'' then Inr (symbolTable, currentAddress)
        else
          (case find_char CHR '':'' line of
             Some labelPos \<Rightarrow>
               (let label = remove_spaces (substr line 0 labelPos) in
                  if symbolTable label \<noteq> None then Inl (DuplicateLabel label)
                  else
                    (let restOfLine = erase_leading (drop (labelPos + 1) line) in
                       if restOfLine \<noteq> []
                       then Inr (symbolTable(label \<mapsto> currentAddress), currentAddress + 4)
                       else Inr (symbolTable(label \<mapsto> currentAddress), currentAddress)))
           | None \<Rightarrow> Inr (symbolTable, currentAddress + 4)))"

fun bst_loop :: "symtab \<times> u32 \<Rightarrow> string list \<Rightarrow> error + (symtab \<times> u32)" where
  "bst_loop st [] = Inr st"
| "bst_loop st (line # lines) =
     (case bst_line st line of
        Inl e \<Rightarrow> Inl e
      | Inr st' \<Rightarrow> bst_loop st' lines)"

text \<open>
  \<open>INSTRUCTION_MEMORY_START\<close> is declared in a header that is not part of the sources;
  it is the first argument here.
\<close>

definition buildSymbolTable :: "u32 \<Rightarrow> string list \<Rightarrow> error + symtab" where
  "buildSymbolTable INSTRUCTION_MEMORY_START lines =
     (case bst_loop (Map.empty, INSTRUCTION_MEMORY_START) lines of
        Inl e \<Rightarrow> Inl e
      | Inr (symbolTable, currentAddress) \<Rightarrow> Inr symbolTable)"

section \<open>Pass 2: \<open>parseInstructions\<close>\<close>

record ParsedInstruction =
  mnemonic :: string
  operands :: "string list"
  address :: u32
  originalLine :: string

text \<open>
  \<open>ss >> mnemonic\<close> on a fresh stream over the string: leading whitespace is skipped, then
  characters are taken up to the next whitespace or the end; nothing taken leaves the
  string empty.
\<close>

definition extract_word :: "string \<Rightarrow> string" where
  "extract_word s = takeWhile (\<lambda>c. \<not> isspace c) (dropWhile isspace s)"

text \<open>What the stream still holds after that extraction.\<close>

definition after_word :: "string \<Rightarrow> string" where
  "after_word s = dropWhile (\<lambda>c. \<not> isspace c) (dropWhile isspace s)"

text \<open>
  \<open>getline(ss, restOfLine)\<close>: the characters up to the first newline; at the end of the
  stream nothing is read and \<open>restOfLine\<close> keeps its initial empty value.
\<close>

definition getline_rest :: "string \<Rightarrow> string" where
  "getline_rest s = takeWhile (\<lambda>c. c \<noteq> CHR 0x0A) s"

text \<open>
  One iteration of the loop: \<open>Inr None\<close> is \<open>continue\<close> (no instruction, the address
  stays), \<open>Inr (Some pInst)\<close> is the \<open>push_back\<close>, \<open>Inl\<close> is \<open>exit(1)\<close>. The helper \<open>split\<close>
  is defined outside the sources and is an argument.
\<close>

definition parse_line ::
  "(string \<Rightarrow> char \<Rightarrow> string list) \<Rightarrow> u32 \<Rightarrow> string \<Rightarrow> error + ParsedInstruction option" where
  "parse_line split currentAddress line =
     (let currentLine =
            (case find_char CHR '':'' line of
               Some labelPos \<Rightarrow> erase_leading (drop (labelPos + 1) line)
             | None \<Rightarrow> line)
      in
        if find_char CHR '':'' line \<noteq> None \<and> currentLine = [] then Inr None
        else
          (let mnemonic = extract_word currentLine in
             if mnemonic = [] then Inr None
             else
               (let restOfLine = getline_rest (after_word currentLine) in
                  if mnemonic = ''lw'' \<or> mnemonic = ''sw'' then
                    (let parts = split restOfLine CHR '','' in
                       if length parts \<noteq> 2 then Inl (IncorrectOperandCount line mnemonic)
                       else
                         (let destReg = parts ! 0; immAndBase = parts ! 1 in
                            (case (find_char CHR ''('' immAndBase, find_char CHR '')'' immAndBase) of
                               (Some openParen, Some closeParen) \<Rightarrow>
                                 if closeParen < openParen
                                 then Inl (InvalidAddressFormat line mnemonic)
                                 else
                                   (let imm = substr immAndBase 0 openParen;
                                        baseReg = remove_spaces
                                          (substr immAndBase (openParen + 1)
                                             (closeParen - (openParen + 1)))
                                    in Inr (Some \<lparr>mnemonic = mnemonic,
                                                   operands = [destReg, baseReg, imm],
                                                   address = currentAddress,
                                                   originalLine = line\<rparr>))
                             | _ \<Rightarrow> Inl (InvalidAddressFormat line mnemonic))))
                  else Inr (Some \<lparr>mnemonic = mnemonic,
                                   operands = split restOfLine CHR '','',
                                   address = currentAddress,
                                   originalLine = line\<rparr>))))"

fun parse_loop ::
  "(string \<Rightarrow> char \<Rightarrow> string list) \<Rightarrow> ParsedInstruction list \<times> u32 \<Rightarrow> string list \<Rightarrow>
     error + (ParsedInstruction list \<times> u32)" where
  "parse_loop split st [] = Inr st"
| "parse_loop split (instructions, currentAddress) (line # lines) =
     (case parse_line split currentAddress line of
        Inl e \<Rightarrow> Inl e
      | Inr None \<Rightarrow> parse_loop split (instructions, currentAddress) lines
      | Inr (Some pInst) \<Rightarrow> parse_loop split (instructions @ [pInst], currentAddress + 4) lines)"

definition parseInstructions ::
  "(string \<Rightarrow> char \<Rightarrow> string list) \<Rightarrow> u32 \<Rightarrow> string list \<Rightarrow> error + ParsedInstruction list" where
  "parseInstructions split INSTRUCTION_MEMORY_START lines =
     (case parse_loop split ([], INSTRUCTION_MEMORY_START) lines of
        Inl e \<Rightarrow> Inl e
      | Inr (instructions, currentAddress) \<Rightarrow> Inr instructions)"

subsection \<open>The helper \<open>split\<close>\<close>

fun split_at :: "string \<Rightarrow> char \<Rightarrow> string list" where
  "split_at [] d = [[]]"
| "split_at (c # cs) d =
     (if c = d then [] # split_at cs d
      else (case split_at cs d of
              t # ts \<Rightarrow> (c # t) # ts
            | [] \<Rightarrow> [[c]]))"

definition split_spec :: "string \<Rightarrow> char \<Rightarrow> string list" where
  \<comment> \<open>Modelled from the spec: \<open>split\<close> is called by \<open>parseInstructions\<close> and defined
      outside the sources; the spec has "split the operand string on commas, trim each
      token". The text is cut at every delimiter and each piece is trimmed of the
      characters the parser trims everywhere else.\<close>
  "split_spec s d = map (\<lambda>t. erase_trailing (erase_leading t)) (split_at s d)"

section \<open>Preprocessing: \<open>readAndPreprocess\<close>\<close>

text \<open>
  The loop \<open>while (getline(file, line))\<close> over the content of the file: a line ends at
  a newline or at the end of the content, and an extraction that reads nothing at the
  end of the content ends the loop.
\<close>

function getlines :: "string \<Rightarrow> string list" where
  "getlines [] = []"
| "getlines (c # cs) =
     takeWhile (\<lambda>x. x \<noteq> CHR 0x0A) (c # cs)
       # getlines (drop 1 (dropWhile (\<lambda>x. x \<noteq> CHR 0x0A) (c # cs)))"
  by pat_completeness auto
termination
proof (relation "measure length")
  fix c :: char and cs :: string
  have "length (dropWhile (\<lambda>x. x \<noteq> CHR 0x0A) (c # cs)) \<le> length (c # cs)"
    by (rule length_dropWhile_le)
  moreover have "dropWhile (\<lambda>x. x \<noteq> CHR 0x0A) (c # cs) = [] \<or>
      length (drop 1 (dropWhile (\<lambda>x. x \<noteq> CHR 0x0A) (c # cs)))
        < length (dropWhile (\<lambda>x. x \<noteq> CHR 0x0A) (c # cs))"
    by (cases "dropWhile (\<lambda>x. x \<noteq> CHR 0x0A) (c # cs)") auto
  ultimately show "(drop 1 (dropWhile (\<lambda>x. x \<noteq> CHR 0x0A) (c # cs)), c # cs) \<in> measure length"
    by auto
qed simp

text \<open>The body of the loop on one line: \<open>None\<close> when nothing is pushed.\<close>

definition preprocess_line :: "string \<Rightarrow> string option" where
  "preprocess_line line0 =
     (let line1 = (case find_char CHR ''#'' line0 of
                     Some commentPos \<Rightarrow> substr line0 0 commentPos
                   | None \<Rightarrow> line0);
          line = erase_trailing (erase_leading line1)
      in if line \<noteq> [] then (if hd line = CHR ''.'' then None else Some line) else None)"

fun preprocess_lines :: "string list \<Rightarrow> string list" where
  "preprocess_lines [] = []"
| "preprocess_lines (line0 # rest) =
     (case preprocess_line line0 of
        None \<Rightarrow> preprocess_lines rest
      | Some line \<Rightarrow> line # preprocess_lines rest)"

text \<open>
  The file is its content when it can be opened, \<open>None\<close> when it cannot.
\<close>

definition readAndPreprocess :: "string option \<Rightarrow> error + string list" where
  "readAndPreprocess file =
     (case file of
        None \<Rightarrow> Inl CouldNotOpenFile
      | Some content \<Rightarrow> Inr (preprocess_lines (getlines content)))"

section \<open>The driver: \<open>main\<close>\<close>

text \<open>
  The assembly phase of \<open>main\<close>, which it enters when the preprocessed lines are not
  empty: the symbol table is built first and the instructions are parsed only when that
  call has returned; an \<open>exit(1)\<close> in the first call ends the program there.
  \<open>parseDataSection\<close>, called between the two on the same lines, is defined outside the
  sources and is left out: the lines are passed to it as they are passed to the two
  passes, and its result is the data segment.
\<close>

definition assemble ::
  "(string \<Rightarrow> char \<Rightarrow> string list) \<Rightarrow> u32 \<Rightarrow> string list \<Rightarrow>
     error + (symtab \<times> ParsedInstruction list)" where
  "assemble split INSTRUCTION_MEMORY_START lines =
     (case buildSymbolTable INSTRUCTION_MEMORY_START lines of
        Inl e \<Rightarrow> Inl e
      | Inr SYMBOL_TABLE \<Rightarrow>
          (case parseInstructions split INSTRUCTION_MEMORY_START lines of
             Inl e \<Rightarrow> Inl e
           | Inr instructions \<Rightarrow> Inr (SYMBOL_TABLE, instructions)))"

text \<open>
  The body of the loop over \<open>DATA_SEGMENT\<close>: four calls of \<open>set_memory\<close>. The simulator
  and its \<open>set_memory\<close> are defined outside the sources, so the simulator is a type
  variable and \<open>set_memory\<close> an argument. Masking with \<open>0xFF\<close> makes the shifted value the
  same for a signed and an unsigned \<open>val\<close>.
\<close>

definition load_entry :: "('sim \<Rightarrow> u32 \<Rightarrow> u32 \<Rightarrow> 'sim) \<Rightarrow> 'sim \<Rightarrow> u32 \<times> u32 \<Rightarrow> 'sim" where
  "load_entry set_memory sim entry =
     (case entry of (addr, val) \<Rightarrow>
        (let sim1 = set_memory sim addr (val AND 0xFF);
             sim2 = set_memory sim1 (addr + 1) (drop_bit 8 val AND 0xFF);
             sim3 = set_memory sim2 (addr + 2) (drop_bit 16 val AND 0xFF);
             sim4 = set_memory sim3 (addr + 3) (drop_bit 24 val AND 0xFF)
         in sim4))"

text \<open>The loop, over the entries of the map in the order of iteration.\<close>

fun load_data_segment ::
  "('sim \<Rightarrow> u32 \<Rightarrow> u32 \<Rightarrow> 'sim) \<Rightarrow> 'sim \<Rightarrow> (u32 \<times> u32) list \<Rightarrow> 'sim" where
  "load_data_segment set_memory sim [] = sim"
| "load_data_segment set_memory sim (entry # entries) =
     load_data_segment set_memory (load_entry set_memory sim entry) entries"

text \<open>
  The word the driver's memory view shows for an address: the four bytes from \<open>get_mem\<close>,
  the byte at the lowest address in the low bits. \<open>get_mem\<close> is an argument as well.
\<close>

definition read_word :: "('sim \<Rightarrow> u32 \<Rightarrow> u8) \<Rightarrow> 'sim \<Rightarrow> u32 \<Rightarrow> u32" where
  "read_word get_mem sim addr =
     ucast (get_mem sim addr) OR
     push_bit 8 (ucast (get_mem sim (addr + 1))) OR
     push_bit 16 (ucast (get_mem sim (addr + 2))) OR
     push_bit 24 (ucast (get_mem sim (addr + 3)))"

section \<open>The simulator's architectural state\<close>

text \<open>
  The simulator class is defined outside the sources; the driver shows its interface
  (\<open>step\<close>, \<open>get_reg\<close>, \<open>set_reg\<close>, \<open>get_mem\<close>, \<open>set_memory\<close>, \<open>get_pc\<close>, the four pipeline
  registers and their fields).
\<close>

type_synonym regidx = "5 word"

record IF_ID =
  if_id_PC :: u32
  if_id_IR :: u32
  if_id_NPC :: u32

record ID_EX =
  id_ex_IR :: u32
  id_ex_A :: u32
  id_ex_B :: u32
  id_ex_IMM :: u32
  id_ex_NPC :: u32

record EX_MEM =
  ex_mem_IR :: u32
  ex_mem_ALUOutput :: u32
  ex_mem_B :: u32
  ex_mem_cond :: bool

text \<open>
  The driver reads \<open>IR\<close>, \<open>ALUOutput\<close>, \<open>LMD\<close>, \<open>RegWrite\<close> and \<open>rd\<close> of the MEM/WB register;
  \<open>MemToReg\<close> stands for the control bit that selects the loaded data.
\<close>

record MEM_WB =
  mem_wb_IR :: u32
  mem_wb_ALUOutput :: u32
  mem_wb_LMD :: u32
  mem_wb_RegWrite :: bool
  mem_wb_MemToReg :: bool
  mem_wb_rd :: regidx

record simulator =
  regs :: "regidx \<Rightarrow> u32"
  memory :: "u32 \<Rightarrow> u8"
  pc :: u32
  if_id :: IF_ID
  id_ex :: ID_EX
  ex_mem :: EX_MEM
  mem_wb :: MEM_WB

definition get_reg :: "simulator \<Rightarrow> regidx \<Rightarrow> u32" where
  \<comment> \<open>Modelled from the spec: the simulator's \<open>get_reg(i)\<close> reads register \<open>i\<close> of the 32
      general-purpose registers.\<close>
  "get_reg sim i = regs sim i"

definition set_reg :: "simulator \<Rightarrow> regidx \<Rightarrow> u32 \<Rightarrow> simulator" where
  \<comment> \<open>Modelled from the spec: the simulator's \<open>set_reg(i, v)\<close>; "index 0 write is a
      no-op", "x0 hardwired to zero -- writes to it are silently discarded".\<close>
  "set_reg sim i v = (if i = 0 then sim else sim\<lparr>regs := (regs sim)(i := v)\<rparr>)"

definition get_mem :: "simulator \<Rightarrow> u32 \<Rightarrow> u8" where
  \<comment> \<open>Modelled from the spec: the simulator's byte-granular \<open>get_mem(addr)\<close>; the spec
      leaves the policy for an address out of range open, and the memory here is total.\<close>
  "get_mem sim addr = memory sim addr"

definition set_memory :: "simulator \<Rightarrow> u32 \<Rightarrow> u32 \<Rightarrow> simulator" where
  \<comment> \<open>Modelled from the spec: the simulator's byte-granular \<open>set_memory(addr, v)\<close>, which
      keeps the low byte of the value.\<close>
  "set_memory sim addr v = sim\<lparr>memory := (memory sim)(addr := ucast v)\<rparr>"

definition write_back :: "simulator \<Rightarrow> regidx \<Rightarrow> u32" where
  \<comment> \<open>Modelled from the spec: the Write-Back stage of the simulator's \<open>step\<close>, "if
      register-write-enable is set and destination \<noteq> 0, write ALU-result-or-loaded-data
      into the register file"; the result is the register file after the stage.\<close>
  "write_back sim =
     (let w = mem_wb sim in
        if mem_wb_RegWrite w \<and> mem_wb_rd w \<noteq> 0
        then (regs sim)(mem_wb_rd w := (if mem_wb_MemToReg w then mem_wb_LMD w else mem_wb_ALUOutput w))
        else regs sim)"

definition step :: "(simulator \<Rightarrow> simulator) \<Rightarrow> simulator \<Rightarrow> simulator" where
  \<comment> \<open>Modelled from the spec: the simulator's \<open>step()\<close>, one clock. Write-Back is the only
      stage that writes the register file; the Memory, Execute, Decode and Fetch stages
      with the hazard logic produce the next memory, program counter and pipeline
      registers from the state before the clock. These stages are an argument
      (\<open>stages\<close>), and what it returns for the register file is not used.\<close>
  "step stages sim = (stages sim)\<lparr>regs := write_back sim\<rparr>"

datatype operation = Step | SetReg regidx u32 | SetMemory u32 u32

fun apply_operation :: "(simulator \<Rightarrow> simulator) \<Rightarrow> simulator \<Rightarrow> operation \<Rightarrow> simulator" where
  "apply_operation stages sim Step = step stages sim"
| "apply_operation stages sim (SetReg i v) = set_reg sim i v"
| "apply_operation stages sim (SetMemory addr v) = set_memory sim addr v"

text \<open>What the interactive driver does to the simulator: any sequence of these calls.\<close>

definition run :: "(simulator \<Rightarrow> simulator) \<Rightarrow> simulator \<Rightarrow> operation list \<Rightarrow> simulator" where
  "run stages sim ops = foldl (apply_operation stages) sim ops"

section \<open>Vocabulary of the properties\<close>

text \<open>
  The conditions the two passes test on a line, named: a directive line starts with a
  dot; a label-bearing line is any other line with a colon; its label is the text before
  the first colon without its whitespace, and what follows the colon is its remainder
  once the leading blanks are gone.
\<close>

definition is_directive :: "string \<Rightarrow> bool" where
  "is_directive line \<longleftrightarrow> line \<noteq> [] \<and> hd line = CHR ''.''"

definition has_label :: "string \<Rightarrow> bool" where
  "has_label line \<longleftrightarrow> \<not> is_directive line \<and> CHR '':'' \<in> set line"

definition label_of :: "string \<Rightarrow> string" where
  "label_of line = remove_spaces (takeWhile (\<lambda>c. c \<noteq> CHR '':'') line)"

definition label_rest :: "string \<Rightarrow> string" where
  "label_rest line = erase_leading (drop 1 (dropWhile (\<lambda>c. c \<noteq> CHR '':'') line))"

text \<open>A bare label has an empty remainder.\<close>

definition bare_label :: "string \<Rightarrow> bool" where
  "bare_label line \<longleftrightarrow> has_label line \<and> label_rest line = []"

text \<open>
  A line is instruction-bearing for pass 1 when the loop advances \<open>currentAddress\<close> on it.
\<close>

definition instruction_bearing :: "string \<Rightarrow> bool" where
  "instruction_bearing line \<longleftrightarrow> \<not> is_directive line \<and> \<not> bare_label line"

text \<open>The labels of the label-bearing lines, in order.\<close>

definition labels :: "string list \<Rightarrow> string list" where
  "labels lines = map label_of (filter has_label lines)"

text \<open>
  The value of \<open>currentAddress\<close> when the loop of \<open>buildSymbolTable\<close> reaches line \<open>i\<close>
  (after \<open>i\<close> iterations); \<open>None\<close> when the loop has ended in an error before.
\<close>

definition address_at :: "u32 \<Rightarrow> string list \<Rightarrow> nat \<Rightarrow> u32 option" where
  "address_at INSTRUCTION_MEMORY_START lines i =
     (case bst_loop (Map.empty, INSTRUCTION_MEMORY_START) (take i lines) of
        Inl e \<Rightarrow> None
      | Inr (symbolTable, currentAddress) \<Rightarrow> Some currentAddress)"

text \<open>
  The address of line \<open>i\<close>, counted without the loop: the start address plus 4 for every
  instruction-bearing line before it.
\<close>

definition line_address :: "u32 \<Rightarrow> string list \<Rightarrow> nat \<Rightarrow> u32" where
  "line_address INSTRUCTION_MEMORY_START lines i =
     INSTRUCTION_MEMORY_START + 4 * of_nat (length (filter instruction_bearing (take i lines)))"

text \<open>
  What pass 2 works on in a line: the text after the label, its first word and the
  operand text after that word.
\<close>

definition line_body :: "string \<Rightarrow> string" where
  "line_body line = (if CHR '':'' \<in> set line then label_rest line else line)"

definition mnemonic_of :: "string \<Rightarrow> string" where
  "mnemonic_of line = extract_word (line_body line)"

definition operand_text :: "string \<Rightarrow> string" where
  "operand_text line = getline_rest (after_word (line_body line))"

text \<open>
  The address operand \<open>imm(base)\<close> of a load or store: both parentheses occur and no
  closing one stands before the first opening one. The immediate is the text before the
  first opening parenthesis, the base register the text between it and the first closing
  parenthesis, without its whitespace.
\<close>

definition well_parenthesised :: "string \<Rightarrow> bool" where
  "well_parenthesised s \<longleftrightarrow>
     CHR ''('' \<in> set s \<and> CHR '')'' \<in> set s \<and>
     CHR '')'' \<notin> set (takeWhile (\<lambda>c. c \<noteq> CHR ''('') s)"

definition imm_text :: "string \<Rightarrow> string" where
  "imm_text s = takeWhile (\<lambda>c. c \<noteq> CHR ''('') s"

definition base_text :: "string \<Rightarrow> string" where
  "base_text s =
     remove_spaces (takeWhile (\<lambda>c. c \<noteq> CHR '')'') (drop 1 (dropWhile (\<lambda>c. c \<noteq> CHR ''('') s)))"

text \<open>The four byte addresses an entry of the data segment is stored at.\<close>

definition bytes_of :: "u32 \<Rightarrow> u32 set" where
  "bytes_of addr = {addr, addr + 1, addr + 2, addr + 3}"

text \<open>
  A 32-bit value lies at an address in little-endian order: its lowest byte at the
  address, the next ones at the three addresses that follow.
\<close>

definition stored_little_endian :: "('sim \<Rightarrow> u32 \<Rightarrow> u8) \<Rightarrow> 'sim \<Rightarrow> u32 \<Rightarrow> u32 \<Rightarrow> bool" where
  "stored_little_endian peek sim addr val \<longleftrightarrow>
     peek sim addr = ucast (val AND 0xFF) \<and>
     peek sim (addr + 1) = ucast (drop_bit 8 val AND 0xFF) \<and>
     peek sim (addr + 2) = ucast (drop_bit 16 val AND 0xFF) \<and>
     peek sim (addr + 3) = ucast (drop_bit 24 val AND 0xFF)"

section \<open>The loop of pass 1\<close>

lemma find_char_eq:
  "find_char c s = (if c \<in> set s then Some (length (takeWhile (\<lambda>x. x \<noteq> c) s)) else None)"
  by (induction s) auto

lemma find_char_take:
  assumes "find_char c s = Some p"
  shows "take p s = takeWhile (\<lambda>x. x \<noteq> c) s" and "drop (p + 1) s = drop 1 (dropWhile (\<lambda>x. x \<noteq> c) s)"
proof -
  from assms have p: "p = length (takeWhile (\<lambda>x. x \<noteq> c) s)"
    by (simp add: find_char_eq split: if_splits)
  have "take p (takeWhile (\<lambda>x. x \<noteq> c) s @ dropWhile (\<lambda>x. x \<noteq> c) s) = takeWhile (\<lambda>x. x \<noteq> c) s"
    unfolding p by (simp del: takeWhile_dropWhile_id)
  then show "take p s = takeWhile (\<lambda>x. x \<noteq> c) s" by simp
  have "drop p (takeWhile (\<lambda>x. x \<noteq> c) s @ dropWhile (\<lambda>x. x \<noteq> c) s) = dropWhile (\<lambda>x. x \<noteq> c) s"
    unfolding p by (simp del: takeWhile_dropWhile_id)
  then have "drop p s = dropWhile (\<lambda>x. x \<noteq> c) s" by simp
  then have "drop 1 (drop p s) = drop 1 (dropWhile (\<lambda>x. x \<noteq> c) s)" by simp
  then show "drop (p + 1) s = drop 1 (dropWhile (\<lambda>x. x \<noteq> c) s)" by (simp add: add.commute)
qed

lemma bst_line_eq:
  "bst_line (tab, a) line =
     (if is_directive line then Inr (tab, a)
      else if CHR '':'' \<in> set line then
        (if tab (label_of line) \<noteq> None then Inl (DuplicateLabel (label_of line))
         else Inr (tab(label_of line \<mapsto> a), if label_rest line \<noteq> [] then a + 4 else a))
      else Inr (tab, a + 4))"
proof (cases "find_char CHR '':'' line")
  case None
  then show ?thesis
    by (auto simp: bst_line_def is_directive_def find_char_eq split: if_splits)
next
  case (Some p)
  then have "CHR '':'' \<in> set line"
    by (simp add: find_char_eq split: if_splits)
  then have ne: "line \<noteq> []" by auto
  from Some have take: "take p line = takeWhile (\<lambda>x. x \<noteq> CHR '':'') line"
    by (rule find_char_take)
  from Some have drop: "drop (p + 1) line = drop 1 (dropWhile (\<lambda>x. x \<noteq> CHR '':'') line)"
    by (rule find_char_take)
  have "label_of line = remove_spaces (substr line 0 p)"
    by (simp add: label_of_def substr_def take)
  moreover have "label_rest line = erase_leading (drop (p + 1) line)"
    by (simp only: label_rest_def drop)
  ultimately show ?thesis
    using Some ne \<open>CHR '':'' \<in> set line\<close>
    by (simp add: bst_line_def is_directive_def Let_def)
qed


lemma bst_line_label:
  "bst_line (tab, a) line =
     (if has_label line then
        (if tab (label_of line) \<noteq> None then Inl (DuplicateLabel (label_of line))
         else Inr (tab(label_of line \<mapsto> a), if bare_label line then a else a + 4))
      else Inr (tab, if is_directive line then a else a + 4))"
  by (simp add: bst_line_eq has_label_def bare_label_def)

lemma labels_Cons:
  "labels (line # lines) = (if has_label line then label_of line # labels lines else labels lines)"
  by (simp add: labels_def)

lemma bst_loop_append:
  "bst_loop st (xs @ ys) =
     (case bst_loop st xs of Inl e \<Rightarrow> Inl e | Inr st' \<Rightarrow> bst_loop st' ys)"
  by (induction xs arbitrary: st) (auto split: sum.splits)

lemma bst_loop_ok:
  "distinct (labels lines) \<Longrightarrow> set (labels lines) \<inter> dom tab = {} \<Longrightarrow>
     \<exists>tab' a'. bst_loop (tab, a) lines = Inr (tab', a') \<and> dom tab' = dom tab \<union> set (labels lines)"
proof (induction lines arbitrary: tab a)
  case Nil
  then show ?case by (simp add: labels_def)
next
  case (Cons line lines)
  show ?case
  proof (cases "has_label line")
    case True
    with Cons.prems have fresh: "tab (label_of line) = None"
      and d: "distinct (labels lines)"
      and disj: "set (labels lines) \<inter> dom (tab(label_of line \<mapsto> a)) = {}"
      by (auto simp: labels_Cons)
    from Cons.IH [of "tab(label_of line \<mapsto> a)" "if bare_label line then a else a + 4", OF d disj]
    obtain tab' a' where "bst_loop (tab(label_of line \<mapsto> a), if bare_label line then a else a + 4) lines = Inr (tab', a')"
      and "dom tab' = dom (tab(label_of line \<mapsto> a)) \<union> set (labels lines)"
      by blast
    with True fresh show ?thesis
      by (simp add: bst_line_label labels_Cons)
  next
    case False
    with Cons.prems have d: "distinct (labels lines)" and disj: "set (labels lines) \<inter> dom tab = {}"
      by (auto simp: labels_Cons)
    from Cons.IH [of tab "if is_directive line then a else a + 4", OF d disj] False
    show ?thesis
      by (simp add: bst_line_label labels_Cons)
  qed
qed

lemma bst_loop_dup:
  "\<not> (distinct (labels lines) \<and> set (labels lines) \<inter> dom tab = {}) \<Longrightarrow>
     \<exists>l. bst_loop (tab, a) lines = Inl (DuplicateLabel l) \<and> l \<in> set (labels lines)"
proof (induction lines arbitrary: tab a)
  case Nil
  then show ?case by (simp add: labels_def)
next
  case (Cons line lines)
  show ?case
  proof (cases "has_label line")
    case True
    show ?thesis
    proof (cases "tab (label_of line)")
      case (Some y)
      with True show ?thesis
        by (auto simp: bst_line_label labels_Cons)
    next
      case None
      with True Cons.prems
      have "\<not> (distinct (labels lines) \<and> set (labels lines) \<inter> dom (tab(label_of line \<mapsto> a)) = {})"
        by (auto simp: labels_Cons)
      from Cons.IH [of "tab(label_of line \<mapsto> a)" "if bare_label line then a else a + 4", OF this]
      obtain l where "bst_loop (tab(label_of line \<mapsto> a), if bare_label line then a else a + 4) lines
          = Inl (DuplicateLabel l)" and "l \<in> set (labels lines)"
        by blast
      with True None show ?thesis
        by (auto simp: bst_line_label labels_Cons)
    qed
  next
    case False
    with Cons.prems have "\<not> (distinct (labels lines) \<and> set (labels lines) \<inter> dom tab = {})"
      by (auto simp: labels_Cons)
    from Cons.IH [of tab "if is_directive line then a else a + 4", OF this] False
    show ?thesis
      by (simp add: bst_line_label labels_Cons)
  qed
qed

section \<open>Duplicate labels\<close>

text \<open>
  C3. When a label occurs on two label-bearing lines, \<open>buildSymbolTable\<close> ends in the
  duplicate-label error, and so does the driver's assembly phase whatever the lines hold
  otherwise: \<open>parseInstructions\<close> is never reached. When no label is repeated the table is
  returned and its keys are exactly the labels, one binding for each label-bearing line.
\<close>

theorem duplicate_label_aborts:
  "(\<not> distinct (labels lines) \<longrightarrow>
      (\<exists>l \<in> set (labels lines).
         buildSymbolTable start lines = Inl (DuplicateLabel l) \<and>
         assemble split start lines = Inl (DuplicateLabel l))) \<and>
   (distinct (labels lines) \<longrightarrow>
      (\<exists>symbolTable.
         buildSymbolTable start lines = Inr symbolTable \<and>
         dom symbolTable = set (labels lines)))"
proof (intro conjI impI)
  assume "\<not> distinct (labels lines)"
  then have "\<not> (distinct (labels lines) \<and> set (labels lines) \<inter> dom (Map.empty :: symtab) = {})"
    by simp
  from bst_loop_dup [OF this, of start]
  obtain l where "bst_loop (Map.empty, start) lines = Inl (DuplicateLabel l)" "l \<in> set (labels lines)"
    by blast
  then show "\<exists>l \<in> set (labels lines).
         buildSymbolTable start lines = Inl (DuplicateLabel l) \<and>
         assemble split start lines = Inl (DuplicateLabel l)"
    by (auto simp: buildSymbolTable_def assemble_def)
next
  assume "distinct (labels lines)"
  from bst_loop_ok [OF this, of Map.empty start]
  show "\<exists>symbolTable. buildSymbolTable start lines = Inr symbolTable \<and>
         dom symbolTable = set (labels lines)"
    by (auto simp: buildSymbolTable_def)
qed

theorem duplicate_label_aborts_witness:
  "buildSymbolTable 0x80 [''loop: addi x5, x5, -1'', ''lw x1'', ''loop: bne x5, x0, loop'']
     = Inl (DuplicateLabel ''loop'') \<and>
   assemble split_spec 0x80 [''loop: addi x5, x5, -1'', ''lw x1'', ''loop: bne x5, x0, loop'']
     = Inl (DuplicateLabel ''loop'') \<and>
   (\<exists>symbolTable.
      buildSymbolTable 0x80 [''loop: addi x5, x5, -1'', ''bne x5, x0, loop''] = Inr symbolTable \<and>
      dom symbolTable = {''loop''})"
proof -
  have l1: "labels [''loop: addi x5, x5, -1'', ''lw x1'', ''loop: bne x5, x0, loop'']
      = [''loop'', ''loop'']"
    by (simp add: labels_def has_label_def is_directive_def label_of_def remove_spaces_def
        isspace_def)
  have l2: "labels [''loop: addi x5, x5, -1'', ''bne x5, x0, loop''] = [''loop'']"
    by (simp add: labels_def has_label_def is_directive_def label_of_def remove_spaces_def
        isspace_def)
  from duplicate_label_aborts
    [of "[''loop: addi x5, x5, -1'', ''lw x1'', ''loop: bne x5, x0, loop'']" "0x80" split_spec]
    duplicate_label_aborts [of "[''loop: addi x5, x5, -1'', ''bne x5, x0, loop'']" "0x80" split_spec]
  show ?thesis
    unfolding l1 l2 by simp
qed

section \<open>The table and the counter of pass 1\<close>

lemma bst_line_map_le: "bst_line (tab, a) line = Inr (tab', a') \<Longrightarrow> tab \<subseteq>\<^sub>m tab'"
  by (auto simp: bst_line_label map_le_def split: if_splits)

lemma bst_loop_map_le: "bst_loop (tab, a) lines = Inr (tab', a') \<Longrightarrow> tab \<subseteq>\<^sub>m tab'"
proof (induction lines arbitrary: tab a)
  case Nil
  then show ?case by simp
next
  case (Cons line lines)
  then obtain t1 a1 where step: "bst_line (tab, a) line = Inr (t1, a1)"
    and rest: "bst_loop (t1, a1) lines = Inr (tab', a')"
    by (auto split: sum.splits)
  from bst_line_map_le [OF step] Cons.IH [OF rest] show ?case
    by (rule map_le_trans)
qed

lemma bst_line_idle:
  "bst_line (tab, a) line = Inr (tab', a') \<Longrightarrow> \<not> instruction_bearing line \<Longrightarrow> a' = a"
  by (auto simp: bst_line_label instruction_bearing_def bare_label_def has_label_def
      split: if_splits)

lemma bst_loop_idle:
  "bst_loop (tab, a) lines = Inr (tab', a') \<Longrightarrow> \<forall>l \<in> set lines. \<not> instruction_bearing l \<Longrightarrow> a' = a"
proof (induction lines arbitrary: tab a)
  case Nil
  then show ?case by simp
next
  case (Cons line lines)
  then obtain t1 a1 where step: "bst_line (tab, a) line = Inr (t1, a1)"
    and rest: "bst_loop (t1, a1) lines = Inr (tab', a')"
    by (auto split: sum.splits)
  from Cons.prems have "\<not> instruction_bearing line" "\<forall>l \<in> set lines. \<not> instruction_bearing l"
    by simp_all
  with bst_line_idle [OF step] Cons.IH [OF rest] show ?case by simp
qed

lemma bst_loop_prefix:
  assumes "bst_loop st lines = Inr st'"
  shows "\<exists>t a. bst_loop st (take n lines) = Inr (t, a) \<and> bst_loop (t, a) (drop n lines) = Inr st'"
proof -
  have "bst_loop st (take n lines @ drop n lines) = Inr st'"
    using assms by simp
  then show ?thesis
    by (simp only: bst_loop_append) (auto split: sum.splits)
qed

section \<open>Label names\<close>

text \<open>
  C9. The lines that reach the label code of \<open>buildSymbolTable\<close> do not begin with a dot:
  the loop skips such a line before it looks for a colon, and \<open>readAndPreprocess\<close> returns
  none. The label of such a line with a colon is the text before the first colon with
  every whitespace character removed. The line alone always yields the table holding that
  one label; within the loop the only error of the line is the duplicate-label error for
  a label that is bound already, and a label not yet bound is always accepted, the empty
  one too.
\<close>

theorem label_is_text_before_colon:
  assumes "CHR '':'' \<in> set line" and "\<not> is_directive line"
  shows "buildSymbolTable start [line]
           = Inr [filter (\<lambda>c. \<not> isspace c) (takeWhile (\<lambda>c. c \<noteq> CHR '':'') line) \<mapsto> start] \<and>
         (\<forall>symbolTable currentAddress e.
            bst_line (symbolTable, currentAddress) line = Inl e \<longrightarrow>
              e = DuplicateLabel (label_of line) \<and> symbolTable (label_of line) \<noteq> None) \<and>
         (\<forall>symbolTable currentAddress.
            symbolTable (label_of line) = None \<longrightarrow>
              (\<exists>a. bst_line (symbolTable, currentAddress) line
                     = Inr (symbolTable(label_of line \<mapsto> currentAddress), a)))"
  using assms
  by (auto simp: buildSymbolTable_def bst_line_eq label_of_def remove_spaces_def split: if_splits)

theorem label_is_text_before_colon_witness:
  "buildSymbolTable 0x80 [''my label: addi x1, x0, 1''] = Inr [''mylabel'' \<mapsto> 0x80] \<and>
   buildSymbolTable 0x80 ['': addi x1, x0, 1''] = Inr [[] \<mapsto> 0x80]"
proof -
  have "CHR '':'' \<in> set ''my label: addi x1, x0, 1''" "\<not> is_directive ''my label: addi x1, x0, 1''"
    "CHR '':'' \<in> set '': addi x1, x0, 1''" "\<not> is_directive '': addi x1, x0, 1''"
    by (simp_all add: is_directive_def)
  from label_is_text_before_colon [OF this(1,2), of "0x80"]
    label_is_text_before_colon [OF this(3,4), of "0x80"]
  show ?thesis
    by (simp add: isspace_def)
qed

section \<open>The loop of pass 2\<close>

lemma parse_line_eq:
  "parse_line split a line =
     (if mnemonic_of line = [] then Inr None
      else if mnemonic_of line = ''lw'' \<or> mnemonic_of line = ''sw'' then
        (let parts = split (operand_text line) CHR '','' in
           if length parts \<noteq> 2 then Inl (IncorrectOperandCount line (mnemonic_of line))
           else
             (case (find_char CHR ''('' (parts ! 1), find_char CHR '')'' (parts ! 1)) of
                (Some i, Some j) \<Rightarrow>
                  if j < i then Inl (InvalidAddressFormat line (mnemonic_of line))
                  else Inr (Some \<lparr>mnemonic = mnemonic_of line,
                                  operands = [parts ! 0,
                                              remove_spaces (substr (parts ! 1) (i + 1) (j - (i + 1))),
                                              substr (parts ! 1) 0 i],
                                  address = a, originalLine = line\<rparr>)
              | _ \<Rightarrow> Inl (InvalidAddressFormat line (mnemonic_of line))))
      else Inr (Some \<lparr>mnemonic = mnemonic_of line,
                      operands = split (operand_text line) CHR '','',
                      address = a, originalLine = line\<rparr>))"
proof (cases "find_char CHR '':'' line")
  case None
  then have "CHR '':'' \<notin> set line"
    by (simp add: find_char_eq split: if_splits)
  then have body: "line_body line = line"
    by (simp add: line_body_def)
  show ?thesis
    unfolding parse_line_def mnemonic_of_def operand_text_def body
    by (simp add: None Let_def split: option.splits)
next
  case (Some p)
  then have mem: "CHR '':'' \<in> set line"
    by (simp add: find_char_eq split: if_splits)
  from Some have "drop (p + 1) line = drop 1 (dropWhile (\<lambda>x. x \<noteq> CHR '':'') line)"
    by (rule find_char_take)
  then have "erase_leading (drop (p + 1) line) = line_body line"
    by (simp only: line_body_def label_rest_def mem if_True)
  then have body: "erase_leading (drop (Suc p) line) = line_body line"
    by simp
  have empty: "line_body line = [] \<Longrightarrow> extract_word (line_body line) = []"
    by (simp add: extract_word_def)
  show ?thesis
    unfolding parse_line_def mnemonic_of_def operand_text_def
    using empty by (simp add: Some body Let_def split: option.splits)
qed


lemma takeWhile_before:
  "c \<noteq> d \<Longrightarrow> c \<in> set s \<Longrightarrow>
     d \<in> set (takeWhile (\<lambda>x. x \<noteq> c) s)
       \<longleftrightarrow> length (takeWhile (\<lambda>x. x \<noteq> d) s) < length (takeWhile (\<lambda>x. x \<noteq> c) s)"
  by (induction s) auto

lemma takeWhile_past:
  "c \<noteq> d \<Longrightarrow> c \<in> set s \<Longrightarrow> d \<notin> set (takeWhile (\<lambda>x. x \<noteq> c) s) \<Longrightarrow>
     takeWhile (\<lambda>x. x \<noteq> d) s
       = takeWhile (\<lambda>x. x \<noteq> c) s @ c # takeWhile (\<lambda>x. x \<noteq> d) (drop 1 (dropWhile (\<lambda>x. x \<noteq> c) s))"
  by (induction s) auto

lemma well_parenthesised_find:
  "well_parenthesised s \<longleftrightarrow>
     (\<exists>i j. find_char CHR ''('' s = Some i \<and> find_char CHR '')'' s = Some j \<and> \<not> j < i)"
proof (cases "CHR ''('' \<in> set s \<and> CHR '')'' \<in> set s")
  case True
  then have "CHR '')'' \<in> set (takeWhile (\<lambda>x. x \<noteq> CHR ''('') s)
      \<longleftrightarrow> length (takeWhile (\<lambda>x. x \<noteq> CHR '')'') s) < length (takeWhile (\<lambda>x. x \<noteq> CHR ''('') s)"
    by (intro takeWhile_before) simp_all
  with True show ?thesis
    by (simp add: well_parenthesised_def find_char_eq)
next
  case False
  then show ?thesis
    by (auto simp: well_parenthesised_def find_char_eq split: if_splits)
qed

lemma address_operand_parts:
  assumes "find_char CHR ''('' s = Some i" and "find_char CHR '')'' s = Some j" and "\<not> j < i"
  shows "substr s 0 i = imm_text s"
    and "remove_spaces (substr s (i + 1) (j - (i + 1))) = base_text s"
proof -
  let ?r = "drop 1 (dropWhile (\<lambda>x. x \<noteq> CHR ''('') s)"
  from assms(1) have i: "i = length (takeWhile (\<lambda>x. x \<noteq> CHR ''('') s)" and op: "CHR ''('' \<in> set s"
    by (simp_all add: find_char_eq split: if_splits)
  from assms(2) have j: "j = length (takeWhile (\<lambda>x. x \<noteq> CHR '')'') s)"
    by (simp add: find_char_eq split: if_splits)
  from assms(1) have "take i s = takeWhile (\<lambda>x. x \<noteq> CHR ''('') s"
    by (rule find_char_take)
  then show "substr s 0 i = imm_text s"
    by (simp add: substr_def imm_text_def)
  from assms(1) have rest: "drop (i + 1) s = ?r"
    by (rule find_char_take)
  have "CHR '')'' \<notin> set (takeWhile (\<lambda>x. x \<noteq> CHR ''('') s)"
    using takeWhile_before [of "CHR ''(''" "CHR '')''" s] op assms(3) i j by simp
  with op have "takeWhile (\<lambda>x. x \<noteq> CHR '')'') s
      = takeWhile (\<lambda>x. x \<noteq> CHR ''('') s @ CHR ''('' # takeWhile (\<lambda>x. x \<noteq> CHR '')'') ?r"
    by (intro takeWhile_past) simp_all
  then have "j = i + 1 + length (takeWhile (\<lambda>x. x \<noteq> CHR '')'') ?r)"
    unfolding i j by simp
  then have "take (j - (i + 1)) ?r = takeWhile (\<lambda>x. x \<noteq> CHR '')'') ?r"
    by (simp add: takeWhile_eq_take [symmetric])
  then show "remove_spaces (substr s (i + 1) (j - (i + 1))) = base_text s"
    by (simp only: substr_def rest base_text_def)
qed

lemma parse_line_load_store:
  assumes "mnemonic_of line = ''lw'' \<or> mnemonic_of line = ''sw''"
  shows "parse_line split a line =
     (if length (split (operand_text line) CHR '','') \<noteq> 2
      then Inl (IncorrectOperandCount line (mnemonic_of line))
      else if \<not> well_parenthesised (split (operand_text line) CHR '','' ! 1)
      then Inl (InvalidAddressFormat line (mnemonic_of line))
      else Inr (Some \<lparr>mnemonic = mnemonic_of line,
                      operands = [split (operand_text line) CHR '','' ! 0,
                                  base_text (split (operand_text line) CHR '','' ! 1),
                                  imm_text (split (operand_text line) CHR '','' ! 1)],
                      address = a, originalLine = line\<rparr>))"
proof -
  let ?s = "split (operand_text line) CHR '','' ! 1"
  from assms have ne: "mnemonic_of line \<noteq> []"
    by auto
  show ?thesis
  proof (cases "well_parenthesised ?s")
    case True
    then obtain i j where ij: "find_char CHR ''('' ?s = Some i" "find_char CHR '')'' ?s = Some j"
      "\<not> j < i"
      by (auto simp: well_parenthesised_find)
    from address_operand_parts [OF ij] ij assms ne True show ?thesis
      by (simp add: parse_line_eq Let_def del: One_nat_def)
  next
    case False
    then have "\<And>i j. find_char CHR ''('' ?s = Some i \<Longrightarrow> find_char CHR '')'' ?s = Some j \<Longrightarrow> j < i"
      by (auto simp: well_parenthesised_find)
    with assms ne False show ?thesis
      by (auto simp: parse_line_eq Let_def split: option.splits simp del: One_nat_def)
  qed
qed

lemma parseInstructions_single:
  "parseInstructions split start [line] =
     (case parse_line split start line of
        Inl e \<Rightarrow> Inl e
      | Inr None \<Rightarrow> Inr []
      | Inr (Some pInst) \<Rightarrow> Inr [pInst])"
  by (simp add: parseInstructions_def split: sum.splits option.splits)

lemma parse_line_error:
  assumes "parse_line split a line = Inl e"
  shows "(mnemonic_of line = ''lw'' \<or> mnemonic_of line = ''sw'') \<and>
         (e = IncorrectOperandCount line (mnemonic_of line) \<or>
          e = InvalidAddressFormat line (mnemonic_of line))"
proof (cases "mnemonic_of line = ''lw'' \<or> mnemonic_of line = ''sw''")
  case True
  from assms show ?thesis
    unfolding parse_line_load_store [OF True] using True by (auto split: if_splits)
next
  case False
  with assms show ?thesis
    by (auto simp: parse_line_eq split: if_splits)
qed

lemma parse_loop_error:
  "parse_loop split st lines = Inl e \<Longrightarrow> \<exists>line \<in> set lines. \<exists>a. parse_line split a line = Inl e"
proof (induction lines arbitrary: st)
  case Nil
  then show ?case by simp
next
  case (Cons line lines)
  obtain instructions currentAddress where st: "st = (instructions, currentAddress)"
    by (cases st)
  show ?case
  proof (cases "parse_line split currentAddress line")
    case (Inl e')
    with Cons.prems st show ?thesis by auto
  next
    case (Inr r)
    with Cons.prems st obtain st' where "parse_loop split st' lines = Inl e"
      by (cases r) auto
    from Cons.IH [OF this] show ?thesis by auto
  qed
qed

section \<open>Loads and stores\<close>

text \<open>
  C4, with the parenthesis test as the code makes it. For a line whose mnemonic is \<open>lw\<close>
  or \<open>sw\<close>, \<open>parseInstructions\<close> returns exactly when \<open>split\<close> yields two parts and, in
  the second, both parentheses occur with the first opening one before the first closing
  one. It then returns one instruction with the three operands register, base register
  and immediate, in that order. With another number of parts it ends in the operand-count
  error, and with two parts and a second part of another shape in the address-format
  error. This holds for every \<open>split\<close> and every start address.
\<close>

theorem load_store_operand_format:
  assumes "mnemonic_of line = ''lw'' \<or> mnemonic_of line = ''sw''"
  shows "((\<exists>instructions. parseInstructions split start [line] = Inr instructions) \<longleftrightarrow>
            length (split (operand_text line) CHR '','') = 2 \<and>
            well_parenthesised (split (operand_text line) CHR '','' ! 1)) \<and>
         (length (split (operand_text line) CHR '','') = 2 \<and>
          well_parenthesised (split (operand_text line) CHR '','' ! 1) \<longrightarrow>
            parseInstructions split start [line] =
              Inr [\<lparr>mnemonic = mnemonic_of line,
                    operands = [split (operand_text line) CHR '','' ! 0,
                                base_text (split (operand_text line) CHR '','' ! 1),
                                imm_text (split (operand_text line) CHR '','' ! 1)],
                    address = start, originalLine = line\<rparr>]) \<and>
         (length (split (operand_text line) CHR '','') \<noteq> 2 \<longrightarrow>
            parseInstructions split start [line] =
              Inl (IncorrectOperandCount line (mnemonic_of line))) \<and>
         (length (split (operand_text line) CHR '','') = 2 \<and>
          \<not> well_parenthesised (split (operand_text line) CHR '','' ! 1) \<longrightarrow>
            parseInstructions split start [line] =
              Inl (InvalidAddressFormat line (mnemonic_of line)))"
  by (simp add: parseInstructions_single parse_line_load_store [OF assms] del: One_nat_def)

theorem load_store_operand_format_witness:
  "parseInstructions split_spec 0x80 [''lw x1, 8(x2)'']
     = Inr [\<lparr>mnemonic = ''lw'', operands = [''x1'', ''x2'', ''8''], address = 0x80,
             originalLine = ''lw x1, 8(x2)''\<rparr>] \<and>
   parseInstructions split_spec 0x80 [''sw x1, 8(x2'']
     = Inl (InvalidAddressFormat ''sw x1, 8(x2'' ''sw'') \<and>
   parseInstructions split_spec 0x80 [''next: lw x1'']
     = Inl (IncorrectOperandCount ''next: lw x1'' ''lw'')"
proof -
  have m: "mnemonic_of ''lw x1, 8(x2)'' = ''lw''" "mnemonic_of ''sw x1, 8(x2'' = ''sw''"
    "mnemonic_of ''next: lw x1'' = ''lw''"
    by (simp_all add: mnemonic_of_def line_body_def label_rest_def extract_word_def
        erase_leading_def isspace_def trim_char_def)
  have p: "split_spec (operand_text ''lw x1, 8(x2)'') CHR '','' = [''x1'', ''8(x2)'']"
    "split_spec (operand_text ''sw x1, 8(x2'') CHR '','' = [''x1'', ''8(x2'']"
    "split_spec (operand_text ''next: lw x1'') CHR '','' = [''x1'']"
    by (simp_all add: operand_text_def line_body_def label_rest_def after_word_def
        getline_rest_def split_spec_def erase_leading_def erase_trailing_def isspace_def
        trim_char_def)
  have w: "well_parenthesised ''8(x2)''" "\<not> well_parenthesised ''8(x2''"
    "base_text ''8(x2)'' = ''x2''" "imm_text ''8(x2)'' = ''8''"
    by (simp_all add: well_parenthesised_def base_text_def imm_text_def remove_spaces_def
        isspace_def)
  from load_store_operand_format [of "''lw x1, 8(x2)''" split_spec "0x80"]
    load_store_operand_format [of "''sw x1, 8(x2''" split_spec "0x80"]
    load_store_operand_format [of "''next: lw x1''" split_spec "0x80"]
  show ?thesis
    unfolding m p by (simp add: w)
qed

text \<open>
  An opening parenthesis before a closing one does not suffice: in \<open>0)(x2)\<close> the opening
  parenthesis at index 2 stands before the closing one at index 5, and the line is
  rejected, since the first closing parenthesis comes first.
\<close>

theorem close_before_open_rejected:
  "mnemonic_of ''lw x1, 0)(x2)'' = ''lw'' \<and>
   split_spec (operand_text ''lw x1, 0)(x2)'') CHR '','' = [''x1'', ''0)(x2)''] \<and>
   ''0)(x2)'' ! 2 = CHR ''('' \<and> ''0)(x2)'' ! 5 = CHR '')'' \<and>
   parseInstructions split_spec 0x80 [''lw x1, 0)(x2)'']
     = Inl (InvalidAddressFormat ''lw x1, 0)(x2)'' ''lw'')"
  by (simp add: parseInstructions_def parse_line_def mnemonic_of_def operand_text_def
      line_body_def extract_word_def after_word_def getline_rest_def split_spec_def
      erase_leading_def erase_trailing_def isspace_def trim_char_def)

section \<open>Operand counts of the other mnemonics\<close>

text \<open>
  C5, as the parser does it. A line whose mnemonic is neither \<open>lw\<close> nor \<open>sw\<close> is never
  rejected: it yields an instruction whose operands are whatever \<open>split\<close> returns for the
  operand text. A \<open>lw\<close> or \<open>sw\<close> line is rejected in exactly two cases: with the
  operand-count error when \<open>split\<close> does not return two parts, and with the address-format
  error when the second part lacks an opening or a closing parenthesis or has a closing
  one before its first opening one. In every other case it yields an instruction, so
  text after the closing parenthesis and an empty base or immediate are accepted.
  Whenever \<open>parseInstructions\<close> ends in an error, the error is one of these two, raised
  by a \<open>lw\<close> or \<open>sw\<close> line of the program.
\<close>

theorem only_load_store_checked:
  "(mnemonic_of line \<noteq> [] \<and> mnemonic_of line \<noteq> ''lw'' \<and> mnemonic_of line \<noteq> ''sw'' \<longrightarrow>
      parseInstructions split start [line] =
        Inr [\<lparr>mnemonic = mnemonic_of line,
              operands = split (operand_text line) CHR '','',
              address = start, originalLine = line\<rparr>]) \<and>
   (mnemonic_of line = ''lw'' \<or> mnemonic_of line = ''sw'' \<longrightarrow>
      parseInstructions split start [line] =
        (if length (split (operand_text line) CHR '','') \<noteq> 2
         then Inl (IncorrectOperandCount line (mnemonic_of line))
         else if CHR ''('' \<notin> set (split (operand_text line) CHR '','' ! 1) \<or>
                 CHR '')'' \<notin> set (split (operand_text line) CHR '','' ! 1) \<or>
                 CHR '')'' \<in> set (takeWhile (\<lambda>c. c \<noteq> CHR ''('')
                                    (split (operand_text line) CHR '','' ! 1))
         then Inl (InvalidAddressFormat line (mnemonic_of line))
         else Inr [\<lparr>mnemonic = mnemonic_of line,
                    operands = [split (operand_text line) CHR '','' ! 0,
                                base_text (split (operand_text line) CHR '','' ! 1),
                                imm_text (split (operand_text line) CHR '','' ! 1)],
                    address = start, originalLine = line\<rparr>])) \<and>
   (parseInstructions split start lines = Inl e \<longrightarrow>
      (\<exists>l \<in> set lines.
         (mnemonic_of l = ''lw'' \<or> mnemonic_of l = ''sw'') \<and>
         (e = IncorrectOperandCount l (mnemonic_of l) \<and>
            length (split (operand_text l) CHR '','') \<noteq> 2 \<or>
          e = InvalidAddressFormat l (mnemonic_of l) \<and>
            length (split (operand_text l) CHR '','') = 2 \<and>
            \<not> well_parenthesised (split (operand_text l) CHR '','' ! 1))))"
proof (intro conjI impI)
  assume "mnemonic_of line \<noteq> [] \<and> mnemonic_of line \<noteq> ''lw'' \<and> mnemonic_of line \<noteq> ''sw''"
  then show "parseInstructions split start [line] =
        Inr [\<lparr>mnemonic = mnemonic_of line,
              operands = split (operand_text line) CHR '','',
              address = start, originalLine = line\<rparr>]"
    by (simp add: parseInstructions_single parse_line_eq)
next
  assume ls: "mnemonic_of line = ''lw'' \<or> mnemonic_of line = ''sw''"
  show "parseInstructions split start [line] =
        (if length (split (operand_text line) CHR '','') \<noteq> 2
         then Inl (IncorrectOperandCount line (mnemonic_of line))
         else if CHR ''('' \<notin> set (split (operand_text line) CHR '','' ! 1) \<or>
                 CHR '')'' \<notin> set (split (operand_text line) CHR '','' ! 1) \<or>
                 CHR '')'' \<in> set (takeWhile (\<lambda>c. c \<noteq> CHR ''('')
                                    (split (operand_text line) CHR '','' ! 1))
         then Inl (InvalidAddressFormat line (mnemonic_of line))
         else Inr [\<lparr>mnemonic = mnemonic_of line,
                    operands = [split (operand_text line) CHR '','' ! 0,
                                base_text (split (operand_text line) CHR '','' ! 1),
                                imm_text (split (operand_text line) CHR '','' ! 1)],
                    address = start, originalLine = line\<rparr>])"
    by (simp add: parseInstructions_single parse_line_load_store [OF ls] well_parenthesised_def
        del: One_nat_def)
next
  assume "parseInstructions split start lines = Inl e"
  then have "parse_loop split ([], start) lines = Inl e"
    by (auto simp: parseInstructions_def split: sum.splits)
  from parse_loop_error [OF this] obtain l a where l: "l \<in> set lines"
    and err: "parse_line split a l = Inl e"
    by blast
  from parse_line_error [OF err] have ls: "mnemonic_of l = ''lw'' \<or> mnemonic_of l = ''sw''"
    by blast
  from err have "e = IncorrectOperandCount l (mnemonic_of l) \<and>
            length (split (operand_text l) CHR '','') \<noteq> 2 \<or>
          e = InvalidAddressFormat l (mnemonic_of l) \<and>
            length (split (operand_text l) CHR '','') = 2 \<and>
            \<not> well_parenthesised (split (operand_text l) CHR '','' ! 1)"
    unfolding parse_line_load_store [OF ls] by (auto split: if_splits)
  with l ls show "\<exists>l \<in> set lines.
         (mnemonic_of l = ''lw'' \<or> mnemonic_of l = ''sw'') \<and>
         (e = IncorrectOperandCount l (mnemonic_of l) \<and>
            length (split (operand_text l) CHR '','') \<noteq> 2 \<or>
          e = InvalidAddressFormat l (mnemonic_of l) \<and>
            length (split (operand_text l) CHR '','') = 2 \<and>
            \<not> well_parenthesised (split (operand_text l) CHR '','' ! 1))"
    by blast
qed

theorem only_load_store_checked_witness:
  "parseInstructions split_spec 0x80 [''mul x1, x2'']
     = Inr [\<lparr>mnemonic = ''mul'', operands = [''x1'', ''x2''], address = 0x80,
             originalLine = ''mul x1, x2''\<rparr>] \<and>
   parseInstructions split_spec 0x80 [''lw x1, 8(x2)garbage'']
     = Inr [\<lparr>mnemonic = ''lw'', operands = [''x1'', ''x2'', ''8''], address = 0x80,
             originalLine = ''lw x1, 8(x2)garbage''\<rparr>] \<and>
   parseInstructions split_spec 0x80 [''sw x1, ()'']
     = Inr [\<lparr>mnemonic = ''sw'', operands = [''x1'', [], []], address = 0x80,
             originalLine = ''sw x1, ()''\<rparr>] \<and>
   parseInstructions split_spec 0x80 [''sw x1, x2'']
     = Inl (InvalidAddressFormat ''sw x1, x2'' ''sw'') \<and>
   parseInstructions split_spec 0x80 [''lw x1, 0(x2), x3'']
     = Inl (IncorrectOperandCount ''lw x1, 0(x2), x3'' ''lw'')"
proof -
  have m: "mnemonic_of ''mul x1, x2'' = ''mul''" "mnemonic_of ''lw x1, 8(x2)garbage'' = ''lw''"
    "mnemonic_of ''sw x1, ()'' = ''sw''" "mnemonic_of ''sw x1, x2'' = ''sw''"
    "mnemonic_of ''lw x1, 0(x2), x3'' = ''lw''"
    by (simp_all add: mnemonic_of_def line_body_def extract_word_def isspace_def)
  have p: "split_spec (operand_text ''mul x1, x2'') CHR '','' = [''x1'', ''x2'']"
    "split_spec (operand_text ''lw x1, 8(x2)garbage'') CHR '','' = [''x1'', ''8(x2)garbage'']"
    "split_spec (operand_text ''sw x1, ()'') CHR '','' = [''x1'', ''()'']"
    "split_spec (operand_text ''sw x1, x2'') CHR '','' = [''x1'', ''x2'']"
    "split_spec (operand_text ''lw x1, 0(x2), x3'') CHR '','' = [''x1'', ''0(x2)'', ''x3'']"
    by (simp_all add: operand_text_def line_body_def after_word_def getline_rest_def
        split_spec_def erase_leading_def erase_trailing_def isspace_def trim_char_def)
  have t: "base_text ''8(x2)garbage'' = ''x2''" "imm_text ''8(x2)garbage'' = ''8''"
    "base_text ''()'' = []" "imm_text ''()'' = []"
    by (simp_all add: base_text_def imm_text_def remove_spaces_def isspace_def)
  have main: "mnemonic_of ''mul x1, x2'' \<noteq> [] \<and> mnemonic_of ''mul x1, x2'' \<noteq> ''lw'' \<and>
      mnemonic_of ''mul x1, x2'' \<noteq> ''sw''"
    by (simp add: m)
  have w: "CHR ''('' \<in> set ''8(x2)garbage''" "CHR '')'' \<in> set ''8(x2)garbage''"
    "CHR '')'' \<notin> set (takeWhile (\<lambda>c. c \<noteq> CHR ''('') ''8(x2)garbage'')"
    "CHR ''('' \<in> set ''()''" "CHR '')'' \<in> set ''()''"
    "CHR '')'' \<notin> set (takeWhile (\<lambda>c. c \<noteq> CHR ''('') ''()'')"
    "CHR ''('' \<notin> set ''x2''"
    by simp_all
  have A: "parseInstructions split_spec 0x80 [''mul x1, x2'']
     = Inr [\<lparr>mnemonic = ''mul'', operands = [''x1'', ''x2''], address = 0x80,
             originalLine = ''mul x1, x2''\<rparr>]"
    using only_load_store_checked [of "''mul x1, x2''" split_spec "0x80" "[]" CouldNotOpenFile,
        THEN conjunct1, rule_format, OF main]
    by (simp only: m p)
  note ls = only_load_store_checked [THEN conjunct2, THEN conjunct1, rule_format,
      where split = split_spec and start = "0x80"]
  have B: "parseInstructions split_spec 0x80 [''lw x1, 8(x2)garbage'']
     = Inr [\<lparr>mnemonic = ''lw'', operands = [''x1'', ''x2'', ''8''], address = 0x80,
             originalLine = ''lw x1, 8(x2)garbage''\<rparr>]"
    using ls [of "''lw x1, 8(x2)garbage''"] unfolding m p by (simp add: t w)
  have C: "parseInstructions split_spec 0x80 [''sw x1, ()'']
     = Inr [\<lparr>mnemonic = ''sw'', operands = [''x1'', [], []], address = 0x80,
             originalLine = ''sw x1, ()''\<rparr>]"
    using ls [of "''sw x1, ()''"] unfolding m p by (simp add: t w)
  have D: "parseInstructions split_spec 0x80 [''sw x1, x2'']
     = Inl (InvalidAddressFormat ''sw x1, x2'' ''sw'')"
    using ls [of "''sw x1, x2''"] unfolding m p by (simp add: w)
  have E: "parseInstructions split_spec 0x80 [''lw x1, 0(x2), x3'']
     = Inl (IncorrectOperandCount ''lw x1, 0(x2), x3'' ''lw'')"
    using ls [of "''lw x1, 0(x2), x3''"] unfolding m p by simp
  from A B C D E show ?thesis
    by blast
qed

text \<open>
  \<open>add\<close> with one operand and \<open>add\<close> with four operands are both parsed without an error,
  so no operand count is required of \<open>add\<close> at parse time.
\<close>

theorem arity_not_checked_for_add:
  "parseInstructions split_spec 0x80 [''add x1'']
     = Inr [\<lparr>mnemonic = ''add'', operands = [''x1''], address = 0x80,
             originalLine = ''add x1''\<rparr>] \<and>
   parseInstructions split_spec 0x80 [''add x1, x2, x3, x4'']
     = Inr [\<lparr>mnemonic = ''add'', operands = [''x1'', ''x2'', ''x3'', ''x4''], address = 0x80,
             originalLine = ''add x1, x2, x3, x4''\<rparr>]"
  by (simp add: parseInstructions_def parse_line_def extract_word_def after_word_def
      getline_rest_def split_spec_def erase_leading_def erase_trailing_def isspace_def
      trim_char_def)

section \<open>Preprocessed lines\<close>

lemma erase_leading_props:
  "set (erase_leading s) \<subseteq> set s"
  "erase_leading s \<noteq> [] \<Longrightarrow> \<not> trim_char (hd (erase_leading s))"
  by (auto simp: erase_leading_def hd_dropWhile dest: set_dropWhileD)

lemma erase_trailing_prefix: "\<exists>z. s = erase_trailing s @ z"
proof -
  have "rev s = takeWhile trim_char (rev s) @ dropWhile trim_char (rev s)"
    by simp
  then have "rev (rev s) = rev (takeWhile trim_char (rev s) @ dropWhile trim_char (rev s))"
    by (rule arg_cong)
  then have "s = erase_trailing s @ rev (takeWhile trim_char (rev s))"
    by (simp add: erase_trailing_def del: takeWhile_dropWhile_id)
  then show ?thesis ..
qed

lemma erase_trailing_props:
  "set (erase_trailing s) \<subseteq> set s"
  "erase_trailing s \<noteq> [] \<Longrightarrow> \<not> trim_char (last (erase_trailing s))"
  "erase_trailing s \<noteq> [] \<Longrightarrow> hd (erase_trailing s) = hd s"
proof -
  show "set (erase_trailing s) \<subseteq> set s"
    by (auto simp: erase_trailing_def dest: set_dropWhileD)
  show "erase_trailing s \<noteq> [] \<Longrightarrow> \<not> trim_char (last (erase_trailing s))"
    by (simp add: erase_trailing_def last_rev hd_dropWhile)
  obtain z where "s = erase_trailing s @ z"
    using erase_trailing_prefix by blast
  then show "erase_trailing s \<noteq> [] \<Longrightarrow> hd (erase_trailing s) = hd s"
    by (metis hd_append2)
qed

lemma preprocess_line_eq:
  "preprocess_line raw =
     (let line = erase_trailing (erase_leading (takeWhile (\<lambda>c. c \<noteq> CHR ''#'') raw))
      in if line \<noteq> [] \<and> hd line \<noteq> CHR ''.'' then Some line else None)"
proof (cases "find_char CHR ''#'' raw")
  case None
  then have "CHR ''#'' \<notin> set raw"
    by (simp add: find_char_eq split: if_splits)
  then have tw: "takeWhile (\<lambda>c. c \<noteq> CHR ''#'') raw = raw"
    by (auto simp: takeWhile_eq_all_conv)
  show ?thesis
    unfolding preprocess_line_def tw by (simp add: None Let_def)
next
  case (Some p)
  from find_char_take(1) [OF this] Some show ?thesis
    by (simp add: preprocess_line_def substr_def Let_def)
qed

lemma preprocess_lines_eq:
  "preprocess_lines raws =
     filter (\<lambda>l. l \<noteq> [] \<and> hd l \<noteq> CHR ''.'')
       (map (\<lambda>raw. erase_trailing (erase_leading (takeWhile (\<lambda>c. c \<noteq> CHR ''#'') raw))) raws)"
  by (induction raws) (simp_all add: preprocess_line_eq Let_def)

text \<open>
  A line that begins with a dot leaves the table and the counter of pass 1 as they are,
  and no preprocessed line begins with a dot.
\<close>

lemma directive_line_skipped: "is_directive line \<Longrightarrow> bst_line st line = Inr st"
  by (cases st) (simp add: bst_line_def is_directive_def)

lemma preprocessed_not_directive:
  "readAndPreprocess (Some content) = Inr lines \<Longrightarrow> line \<in> set lines \<Longrightarrow> \<not> is_directive line"
  by (auto simp: readAndPreprocess_def preprocess_lines_eq is_directive_def)

text \<open>
  C6, with the characters the code trims. For a file that can be opened, the lines
  returned are the lines of the file, each cut at its first \<open>#\<close> and trimmed at both ends
  of spaces, tabs, carriage returns and newlines, in the order of the file and without
  those that are empty or begin with a dot after that. So a returned line is not empty,
  neither begins nor ends with one of these four characters, holds no \<open>#\<close> and does not
  begin with a dot.
\<close>

theorem preprocessed_lines_clean:
  "\<exists>lines.
     readAndPreprocess (Some content) = Inr lines \<and>
     lines = filter (\<lambda>l. l \<noteq> [] \<and> hd l \<noteq> CHR ''.'')
               (map (\<lambda>raw. erase_trailing (erase_leading (takeWhile (\<lambda>c. c \<noteq> CHR ''#'') raw)))
                  (getlines content)) \<and>
     (\<forall>l \<in> set lines.
        l \<noteq> [] \<and> \<not> trim_char (hd l) \<and> \<not> trim_char (last l) \<and>
        CHR ''#'' \<notin> set l \<and> hd l \<noteq> CHR ''.'')"
proof -
  have "l \<noteq> [] \<and> \<not> trim_char (hd l) \<and> \<not> trim_char (last l) \<and> CHR ''#'' \<notin> set l"
    if l: "l = erase_trailing (erase_leading (takeWhile (\<lambda>c. c \<noteq> CHR ''#'') raw))" and ne: "l \<noteq> []"
    for l raw
  proof -
    let ?t = "takeWhile (\<lambda>c. c \<noteq> CHR ''#'') raw"
    from ne l have ne': "erase_leading ?t \<noteq> []"
      by (auto simp: erase_trailing_def)
    from erase_trailing_props(3) [of "erase_leading ?t"] ne l
    have "hd l = hd (erase_leading ?t)"
      by simp
    with erase_leading_props(2) [OF ne'] have "\<not> trim_char (hd l)"
      by simp
    moreover from erase_trailing_props(2) [of "erase_leading ?t"] ne l have "\<not> trim_char (last l)"
      by simp
    moreover have "set l \<subseteq> set ?t"
      using erase_trailing_props(1) [of "erase_leading ?t"] erase_leading_props(1) [of ?t] l
      by blast
    then have "CHR ''#'' \<notin> set l"
      by (auto dest: set_takeWhileD)
    ultimately show ?thesis
      using ne by simp
  qed
  then show ?thesis
    by (auto simp: readAndPreprocess_def preprocess_lines_eq)
qed

theorem preprocessed_lines_clean_witness:
  "readAndPreprocess
     (Some (''  addi x1, x0, 1 # one'' @ [CHR 0x0D, CHR 0x0A] @ ''.data'' @ [CHR 0x0A, CHR 0x0A]
            @ ''# note'' @ [CHR 0x0A, CHR 0x09] @ ''loop: add x1, x1, x1''))
     = Inr [''addi x1, x0, 1'', ''loop: add x1, x1, x1'']"
proof -
  let ?content = "''  addi x1, x0, 1 # one'' @ [CHR 0x0D, CHR 0x0A] @ ''.data'' @ [CHR 0x0A, CHR 0x0A]
            @ ''# note'' @ [CHR 0x0A, CHR 0x09] @ ''loop: add x1, x1, x1''"
  from preprocessed_lines_clean [of ?content] obtain lines
    where r: "readAndPreprocess (Some ?content) = Inr lines"
      and l: "lines = filter (\<lambda>l. l \<noteq> [] \<and> hd l \<noteq> CHR ''.'')
               (map (\<lambda>raw. erase_trailing (erase_leading (takeWhile (\<lambda>c. c \<noteq> CHR ''#'') raw)))
                  (getlines ?content))"
    by blast
  have "lines = [''addi x1, x0, 1'', ''loop: add x1, x1, x1'']"
    unfolding l by (simp add: erase_leading_def erase_trailing_def trim_char_def)
  with r show ?thesis
    by simp
qed

text \<open>
  The vertical tab and the form feed are whitespace and are not trimmed: a line that
  holds a form feed only is returned, and so is a line with a leading vertical tab.
\<close>

theorem vertical_tab_and_form_feed_kept:
  "readAndPreprocess (Some [CHR 0x0C, CHR 0x0A, CHR 0x0B, CHR ''n'', CHR ''o'', CHR ''p'', CHR 0x0A])
     = Inr [[CHR 0x0C], [CHR 0x0B, CHR ''n'', CHR ''o'', CHR ''p'']] \<and>
   isspace (CHR 0x0C) \<and> isspace (CHR 0x0B)"
  by (simp add: readAndPreprocess_def preprocess_line_def erase_leading_def erase_trailing_def
      trim_char_def isspace_def)

section \<open>Loading the data segment\<close>

lemma load_data_segment_append:
  "load_data_segment write sim (xs @ ys) = load_data_segment write (load_data_segment write sim xs) ys"
  by (induction xs arbitrary: sim) simp_all

lemma word_of_le_bytes:
  "ucast (ucast (val AND 0xFF) :: u8) OR
   push_bit 8 (ucast (ucast (drop_bit 8 val AND 0xFF) :: u8)) OR
   push_bit 16 (ucast (ucast (drop_bit 16 val AND 0xFF) :: u8)) OR
   push_bit 24 (ucast (ucast (drop_bit 24 val AND 0xFF) :: u8)) = (val :: u32)"
proof (rule bit_word_eqI)
  fix n :: nat
  assume "n < LENGTH(32)"
  then have n: "n < 32" by simp
  have mask: "(0xFF :: u32) = mask 8"
    by (simp add: mask_eq_exp_minus_1)
  from n consider "n < 8" | "8 \<le> n" "n < 16" | "16 \<le> n" "n < 24" | "24 \<le> n" "n < 32"
    by linarith
  then show "bit (ucast (ucast (val AND 0xFF) :: u8) OR
   push_bit 8 (ucast (ucast (drop_bit 8 val AND 0xFF) :: u8)) OR
   push_bit 16 (ucast (ucast (drop_bit 16 val AND 0xFF) :: u8)) OR
   push_bit 24 (ucast (ucast (drop_bit 24 val AND 0xFF) :: u8)) :: u32) n = bit val n"
    unfolding mask
    by cases (auto simp: bit_simps)
qed


lemma load_entry_stores:
  assumes store: "\<And>s a v. a \<in> bytes_of addr \<Longrightarrow> peek (poke s a v) a = ucast v"
    and frame: "\<And>s a b v. a \<noteq> b \<Longrightarrow> peek (poke s a v) b = peek s b"
  shows "stored_little_endian peek (load_entry poke sim (addr, val)) addr val"
proof -
  have d: "addr + 1 \<noteq> addr" "addr + 2 \<noteq> addr" "addr + 3 \<noteq> addr"
    "addr + 2 \<noteq> addr + 1" "addr + 3 \<noteq> addr + 1" "addr + 3 \<noteq> addr + 2"
    by simp_all
  show ?thesis
    by (simp add: stored_little_endian_def load_entry_def Let_def store frame d bytes_of_def)
qed

lemma load_entry_frame:
  assumes frame: "\<And>s a b v. a \<noteq> b \<Longrightarrow> peek (poke s a v) b = peek s b"
    and "b \<notin> bytes_of (fst entry)"
  shows "peek (load_entry poke sim entry) b = peek sim b"
proof -
  obtain addr val where e: "entry = (addr, val)"
    by (cases entry)
  with assms(2) have "addr \<noteq> b" "addr + 1 \<noteq> b" "addr + 2 \<noteq> b" "addr + 3 \<noteq> b"
    by (auto simp: bytes_of_def)
  then show ?thesis
    by (simp add: e load_entry_def Let_def frame)
qed

lemma load_data_segment_frame:
  assumes frame: "\<And>s a b v. a \<noteq> b \<Longrightarrow> peek (poke s a v) b = peek s b"
  shows "\<forall>entry \<in> set entries. b \<notin> bytes_of (fst entry) \<Longrightarrow>
         peek (load_data_segment poke sim entries) b = peek sim b"
proof (induction entries arbitrary: sim)
  case Nil
  then show ?case by simp
next
  case (Cons entry entries)
  then have "peek (load_data_segment poke (load_entry poke sim entry) entries) b
      = peek (load_entry poke sim entry) b"
    by simp
  also from Cons.prems have "\<dots> = peek sim b"
    by (intro load_entry_frame [of peek poke, OF frame]) simp_all
  finally show ?case by simp
qed

text \<open>
  C7. The simulator is any type with a byte store \<open>poke\<close> and a byte read \<open>peek\<close> such that
  a byte stored at one of the four addresses of the entry is read back there (the low
  byte of the value stored), and a store leaves every other address as it was. When the
  loop of the driver has handled an entry \<open>(addr, val)\<close>, the four bytes of \<open>val\<close> lie at
  \<open>addr\<close> to \<open>addr + 3\<close>, lowest byte first, and the word the driver's memory view
  assembles from them is \<open>val\<close>. When no later entry touches these four addresses, the
  same holds when the loop has ended, which is before the first \<open>step\<close>.
\<close>

theorem data_segment_little_endian:
  assumes store: "\<And>s a v. a \<in> bytes_of addr \<Longrightarrow> peek (poke s a v) a = ucast v"
    and frame: "\<And>s a b v. a \<noteq> b \<Longrightarrow> peek (poke s a v) b = peek s b"
    and i: "i < length DATA_SEGMENT"
    and entry: "DATA_SEGMENT ! i = (addr, val)"
  shows "stored_little_endian peek
           (load_data_segment poke sim (take (Suc i) DATA_SEGMENT)) addr val \<and>
         read_word peek (load_data_segment poke sim (take (Suc i) DATA_SEGMENT)) addr = val \<and>
         ((\<forall>j. i < j \<and> j < length DATA_SEGMENT \<longrightarrow>
               bytes_of (fst (DATA_SEGMENT ! j)) \<inter> bytes_of addr = {}) \<longrightarrow>
            stored_little_endian peek (load_data_segment poke sim DATA_SEGMENT) addr val \<and>
            read_word peek (load_data_segment poke sim DATA_SEGMENT) addr = val)"
proof -
  let ?before = "load_data_segment poke sim (take i DATA_SEGMENT)"
  let ?after = "load_data_segment poke sim (take (Suc i) DATA_SEGMENT)"
  have word: "read_word peek s addr = val" if "stored_little_endian peek s addr val" for s
    using that by (simp add: read_word_def stored_little_endian_def word_of_le_bytes)
  from i entry have "take (Suc i) DATA_SEGMENT = take i DATA_SEGMENT @ [(addr, val)]"
    by (simp add: take_Suc_conv_app_nth)
  then have "?after = load_entry poke ?before (addr, val)"
    by (simp add: load_data_segment_append)
  with load_entry_stores [where peek = peek and poke = poke and sim = "?before" and addr = addr and val = val, OF store frame]
  have now: "stored_little_endian peek ?after addr val"
    by simp
  have later: "stored_little_endian peek (load_data_segment poke sim DATA_SEGMENT) addr val"
    if apart: "\<forall>j. i < j \<and> j < length DATA_SEGMENT \<longrightarrow>
               bytes_of (fst (DATA_SEGMENT ! j)) \<inter> bytes_of addr = {}"
  proof -
    have all: "load_data_segment poke sim DATA_SEGMENT
        = load_data_segment poke ?after (drop (Suc i) DATA_SEGMENT)"
      by (simp add: load_data_segment_append [symmetric])
    have keep: "peek (load_data_segment poke ?after (drop (Suc i) DATA_SEGMENT)) b = peek ?after b"
      if b: "b \<in> bytes_of addr" for b
    proof (rule load_data_segment_frame [of peek poke, OF frame])
      show "\<forall>entry \<in> set (drop (Suc i) DATA_SEGMENT). b \<notin> bytes_of (fst entry)"
      proof
        fix e assume "e \<in> set (drop (Suc i) DATA_SEGMENT)"
        then obtain m where m: "m < length DATA_SEGMENT - Suc i" and e: "e = DATA_SEGMENT ! (Suc i + m)"
          by (auto simp: in_set_conv_nth)
        from m have "i < Suc i + m \<and> Suc i + m < length DATA_SEGMENT"
          by arith
        with apart have "bytes_of (fst (DATA_SEGMENT ! (Suc i + m))) \<inter> bytes_of addr = {}"
          by blast
        with b e show "b \<notin> bytes_of (fst e)"
          by blast
      qed
    qed
    have "addr \<in> bytes_of addr" "addr + 1 \<in> bytes_of addr" "addr + 2 \<in> bytes_of addr"
      "addr + 3 \<in> bytes_of addr"
      by (simp_all add: bytes_of_def)
    with keep now show ?thesis
      unfolding all stored_little_endian_def by simp
  qed
  from now later word show ?thesis
    by blast
qed

theorem data_segment_little_endian_witness:
  "stored_little_endian get_mem
     (load_data_segment set_memory
        \<lparr>regs = (\<lambda>r. 0), memory = (\<lambda>a. 0), pc = 0x80,
         if_id = \<lparr>if_id_PC = 0, if_id_IR = 0, if_id_NPC = 0\<rparr>,
         id_ex = \<lparr>id_ex_IR = 0, id_ex_A = 0, id_ex_B = 0, id_ex_IMM = 0, id_ex_NPC = 0\<rparr>,
         ex_mem = \<lparr>ex_mem_IR = 0, ex_mem_ALUOutput = 0, ex_mem_B = 0, ex_mem_cond = False\<rparr>,
         mem_wb = \<lparr>mem_wb_IR = 0, mem_wb_ALUOutput = 0, mem_wb_LMD = 0,
                   mem_wb_RegWrite = False, mem_wb_MemToReg = False, mem_wb_rd = 0\<rparr>\<rparr>
        [(0, 0x12345678), (4, 0xCAFEBABE)])
     0 0x12345678 \<and>
   ucast (0x12345678 AND 0xFF :: u32) = (0x78 :: u8) \<and>
   ucast (drop_bit 24 (0x12345678 :: u32) AND 0xFF) = (0x12 :: u8)"
proof -
  let ?sim = "\<lparr>regs = (\<lambda>r. 0), memory = (\<lambda>a. 0), pc = 0x80,
         if_id = \<lparr>if_id_PC = 0, if_id_IR = 0, if_id_NPC = 0\<rparr>,
         id_ex = \<lparr>id_ex_IR = 0, id_ex_A = 0, id_ex_B = 0, id_ex_IMM = 0, id_ex_NPC = 0\<rparr>,
         ex_mem = \<lparr>ex_mem_IR = 0, ex_mem_ALUOutput = 0, ex_mem_B = 0, ex_mem_cond = False\<rparr>,
         mem_wb = \<lparr>mem_wb_IR = 0, mem_wb_ALUOutput = 0, mem_wb_LMD = 0,
                   mem_wb_RegWrite = False, mem_wb_MemToReg = False, mem_wb_rd = 0\<rparr>\<rparr>"
  let ?ds = "[(0, 0x12345678), (4, 0xCAFEBABE)] :: (u32 \<times> u32) list"
  have store: "\<And>s a v. a \<in> bytes_of 0 \<Longrightarrow> get_mem (set_memory s a v) a = ucast v"
    by (simp add: get_mem_def set_memory_def)
  have frame: "\<And>s a b v. a \<noteq> b \<Longrightarrow> get_mem (set_memory s a v) b = get_mem s b"
    by (simp add: get_mem_def set_memory_def)
  have i: "0 < length ?ds" and e: "?ds ! 0 = (0, 0x12345678)"
    by simp_all
  have apart: "\<forall>j. 0 < j \<and> j < length ?ds \<longrightarrow> bytes_of (fst (?ds ! j)) \<inter> bytes_of 0 = {}"
  proof (intro allI impI)
    fix j :: nat assume "0 < j \<and> j < length ?ds"
    then have "j = 1" by simp
    then show "bytes_of (fst (?ds ! j)) \<inter> bytes_of 0 = {}"
      by (simp add: bytes_of_def)
  qed
  from data_segment_little_endian [where peek = get_mem and poke = set_memory
      and i = 0 and DATA_SEGMENT = "?ds" and addr = 0 and val = "0x12345678" and sim = "?sim",
      OF store frame i e] apart
  have "stored_little_endian get_mem (load_data_segment set_memory ?sim ?ds) 0 0x12345678"
    by blast
  moreover have "ucast (0x12345678 AND 0xFF :: u32) = (0x78 :: u8)"
    "ucast (drop_bit 24 (0x12345678 :: u32) AND 0xFF) = (0x12 :: u8)"
    by simp_all
  ultimately show ?thesis
    by blast
qed

section \<open>Register x0\<close>

lemma write_back_x0: "regs sim 0 = 0 \<Longrightarrow> write_back sim 0 = 0"
  by (simp add: write_back_def Let_def)

lemma apply_operation_x0:
  "get_reg sim 0 = 0 \<Longrightarrow> get_reg (apply_operation stages sim opn) 0 = 0"
  by (cases opn) (simp_all add: get_reg_def step_def set_reg_def set_memory_def write_back_x0)

text \<open>
  C8, on the simulator modelled from the spec. From a state in which x0 reads 0, as the
  hardwired register does from the start, x0 reads 0 after every sequence of \<open>step\<close>,
  \<open>set_reg\<close> (index 0 included) and \<open>set_memory\<close>, whatever instructions the pipeline holds
  and whatever the other stages compute: a write to x0 is dropped by \<open>set_reg\<close> and by
  the Write-Back stage.
\<close>

theorem x0_always_zero:
  "get_reg sim 0 = 0 \<Longrightarrow> get_reg (run stages sim ops) 0 = 0"
  unfolding run_def
proof (induction ops arbitrary: sim)
  case Nil
  then show ?case by simp
next
  case (Cons opn ops)
  from Cons.prems have "get_reg (apply_operation stages sim opn) 0 = 0"
    by (rule apply_operation_x0)
  then have "get_reg (foldl (apply_operation stages) (apply_operation stages sim opn) ops) 0 = 0"
    by (rule Cons.IH)
  then show ?case by simp
qed

theorem x0_always_zero_witness:
  "get_reg
     (run (\<lambda>s. s)
        \<lparr>regs = (\<lambda>r. 0), memory = (\<lambda>a. 0), pc = 0x80,
         if_id = \<lparr>if_id_PC = 0, if_id_IR = 0, if_id_NPC = 0\<rparr>,
         id_ex = \<lparr>id_ex_IR = 0, id_ex_A = 0, id_ex_B = 0, id_ex_IMM = 0, id_ex_NPC = 0\<rparr>,
         ex_mem = \<lparr>ex_mem_IR = 0, ex_mem_ALUOutput = 0, ex_mem_B = 0, ex_mem_cond = False\<rparr>,
         mem_wb = \<lparr>mem_wb_IR = 0x00500013, mem_wb_ALUOutput = 5, mem_wb_LMD = 0,
                   mem_wb_RegWrite = True, mem_wb_MemToReg = False, mem_wb_rd = 0\<rparr>\<rparr>
        [Step, SetReg 0 7, SetReg 3 9, Step]) 0 = 0"
  by (rule x0_always_zero) (simp add: get_reg_def)

section \<open>The addresses of the two passes\<close>

text \<open>
  C1 fails on a line that holds a form feed only, which \<open>readAndPreprocess\<close> returns as
  a line. Pass 1 counts it as an instruction and binds the label of the next line to the
  start address plus 4. Pass 2 extracts no mnemonic from it and skips it without
  advancing, so the instruction of the labelled line gets the start address: the label
  and its instruction have different addresses. This holds for every \<open>split\<close> and every
  start address.
\<close>

theorem passes_disagree_after_form_feed_line:
  "readAndPreprocess (Some ([CHR 0x0C, CHR 0x0A] @ ''target: addi x1, x0, 1'' @ [CHR 0x0A]))
     = Inr [[CHR 0x0C], ''target: addi x1, x0, 1''] \<and>
   buildSymbolTable start [[CHR 0x0C], ''target: addi x1, x0, 1'']
     = Inr [''target'' \<mapsto> start + 4] \<and>
   parseInstructions split start [[CHR 0x0C], ''target: addi x1, x0, 1'']
     = Inr [\<lparr>mnemonic = ''addi'', operands = split '' x1, x0, 1'' CHR '','',
             address = start, originalLine = ''target: addi x1, x0, 1''\<rparr>] \<and>
   start + 4 \<noteq> start"
proof -
  have "readAndPreprocess (Some ([CHR 0x0C, CHR 0x0A] @ ''target: addi x1, x0, 1'' @ [CHR 0x0A]))
     = Inr [[CHR 0x0C], ''target: addi x1, x0, 1'']"
    by (simp add: readAndPreprocess_def preprocess_line_def erase_leading_def erase_trailing_def
        trim_char_def)
  moreover have "buildSymbolTable start [[CHR 0x0C], ''target: addi x1, x0, 1'']
     = Inr [''target'' \<mapsto> start + 4]"
    by (simp add: buildSymbolTable_def bst_line_def substr_def remove_spaces_def
        erase_leading_def isspace_def trim_char_def)
  moreover have "parseInstructions split start [[CHR 0x0C], ''target: addi x1, x0, 1'']
     = Inr [\<lparr>mnemonic = ''addi'', operands = split '' x1, x0, 1'' CHR '','',
             address = start, originalLine = ''target: addi x1, x0, 1''\<rparr>]"
    by (simp add: parseInstructions_def parse_line_def extract_word_def after_word_def
        getline_rest_def erase_leading_def isspace_def trim_char_def)
  moreover have "start + 4 \<noteq> start"
    by simp
  ultimately show ?thesis
    by blast
qed

lemma parse_line_skip: "mnemonic_of line = [] \<Longrightarrow> parse_line split a line = Inr None"
  by (simp add: parse_line_eq)

lemma parse_line_instruction:
  assumes "mnemonic_of line \<noteq> []" and "parse_line split a line = Inr r"
  shows "\<exists>pInst. r = Some pInst \<and> address pInst = a \<and> originalLine pInst = line"
proof (cases "mnemonic_of line = ''lw'' \<or> mnemonic_of line = ''sw''")
  case True
  from assms(2) show ?thesis
    unfolding parse_line_load_store [OF True] by (auto split: if_splits)
next
  case False
  with assms show ?thesis
    by (auto simp: parse_line_eq)
qed

lemma bare_label_no_mnemonic: "bare_label line \<Longrightarrow> mnemonic_of line = []"
  by (simp add: bare_label_def has_label_def mnemonic_of_def line_body_def extract_word_def)

lemma passes_agree_loop:
  assumes "\<forall>l \<in> set lines. \<not> is_directive l \<and> (instruction_bearing l \<longrightarrow> mnemonic_of l \<noteq> [])"
    and "bst_loop (tab, a) lines = Inr (tab', a1)"
    and "parse_loop split (acc, a) lines = Inr (acc', a2)"
  shows "a1 = a2 \<and>
         (\<exists>new. acc' = acc @ new \<and>
            (\<forall>pInst \<in> set new. has_label (originalLine pInst) \<longrightarrow>
               tab' (label_of (originalLine pInst)) = Some (address pInst)))"
  using assms
proof (induction lines arbitrary: tab a acc)
  case Nil
  then show ?case by simp
next
  case (Cons line lines)
  from Cons.prems(1) have nd: "\<not> is_directive line"
    and mn: "instruction_bearing line \<Longrightarrow> mnemonic_of line \<noteq> []"
    and good: "\<forall>l \<in> set lines. \<not> is_directive l \<and> (instruction_bearing l \<longrightarrow> mnemonic_of l \<noteq> [])"
    by simp_all
  from Cons.prems(2) obtain t1 b1 where step1: "bst_line (tab, a) line = Inr (t1, b1)"
    and rest1: "bst_loop (t1, b1) lines = Inr (tab', a1)"
    by (auto split: sum.splits)
  from Cons.prems(3) obtain r where step2: "parse_line split a line = Inr r"
    by (auto split: sum.splits)
  show ?case
  proof (cases "bare_label line")
    case True
    with step1 have b1: "b1 = a"
      by (auto simp: bst_line_label bare_label_def split: if_splits)
    from True step2 have "r = None"
      by (simp add: parse_line_skip bare_label_no_mnemonic)
    with Cons.prems(3) step2 have rest2: "parse_loop split (acc, a) lines = Inr (acc', a2)"
      by simp
    from Cons.IH [OF good rest1 [unfolded b1] rest2] show ?thesis .
  next
    case False
    with nd have ib: "instruction_bearing line"
      by (simp add: instruction_bearing_def)
    from step1 False nd have b1: "b1 = a + 4"
      by (auto simp: bst_line_label split: if_splits)
    from parse_line_instruction [OF mn [OF ib] step2] obtain pInst
      where r: "r = Some pInst" and ad: "address pInst = a" and ol: "originalLine pInst = line"
      by blast
    with Cons.prems(3) step2 have rest2: "parse_loop split (acc @ [pInst], a + 4) lines = Inr (acc', a2)"
      by simp
    from Cons.IH [OF good rest1 [unfolded b1] rest2] obtain new
      where eq: "a1 = a2" and acc': "acc' = (acc @ [pInst]) @ new"
        and bound: "\<forall>q \<in> set new. has_label (originalLine q) \<longrightarrow>
               tab' (label_of (originalLine q)) = Some (address q)"
      by blast
    have "has_label line \<Longrightarrow> tab' (label_of line) = Some a"
    proof -
      assume hl: "has_label line"
      with step1 have "t1 (label_of line) = Some a"
        by (auto simp: bst_line_label split: if_splits)
      with bst_loop_map_le [OF rest1] show ?thesis
        by (metis domI map_le_def)
    qed
    with bound ad ol have "\<forall>q \<in> set (pInst # new). has_label (originalLine q) \<longrightarrow>
               tab' (label_of (originalLine q)) = Some (address q)"
      by simp
    with eq acc' show ?thesis
      by (intro conjI exI [of _ "pInst # new"]) simp_all
  qed
qed

text \<open>
  The two passes agree on every other input: when no line begins with a dot and every
  line on which pass 1 advances has a mnemonic (its instruction text holds a character
  that is not whitespace), and both passes return, every label is bound to the address
  of the instruction parsed from its line.
\<close>

lemma labels_resolve_to_their_instructions:
  assumes "\<forall>l \<in> set lines. \<not> is_directive l \<and> (instruction_bearing l \<longrightarrow> mnemonic_of l \<noteq> [])"
    and "buildSymbolTable start lines = Inr symbolTable"
    and "parseInstructions split start lines = Inr instructions"
  shows "\<forall>pInst \<in> set instructions. has_label (originalLine pInst) \<longrightarrow>
           symbolTable (label_of (originalLine pInst)) = Some (address pInst)"
proof -
  from assms(2) obtain a1 where 1: "bst_loop (Map.empty, start) lines = Inr (symbolTable, a1)"
    by (auto simp: buildSymbolTable_def split: sum.splits)
  from assms(3) obtain a2 where 2: "parse_loop split ([], start) lines = Inr (instructions, a2)"
    by (auto simp: parseInstructions_def split: sum.splits)
  from passes_agree_loop [OF assms(1) 1 2] show ?thesis
    by simp
qed

section \<open>What a label is bound to\<close>

lemma bst_line_counter:
  "bst_line (tab, a) line = Inr (tab', a') \<Longrightarrow>
     a' = (if instruction_bearing line then a + 4 else a)"
  by (auto simp: bst_line_label instruction_bearing_def bare_label_def has_label_def
      split: if_splits)

lemma bst_loop_counter:
  "bst_loop (tab, a) lines = Inr (tab', a') \<Longrightarrow>
     a' = a + 4 * of_nat (length (filter instruction_bearing lines))"
proof (induction lines arbitrary: tab a)
  case Nil
  then show ?case by simp
next
  case (Cons line lines)
  then obtain t1 a1 where step: "bst_line (tab, a) line = Inr (t1, a1)"
    and rest: "bst_loop (t1, a1) lines = Inr (tab', a')"
    by (auto split: sum.splits)
  from bst_line_counter [OF step] Cons.IH [OF rest] show ?case
    by (simp add: algebra_simps)
qed

lemma address_at_line_address:
  "address_at start lines i = Some a \<Longrightarrow> a = line_address start lines i"
  by (auto simp: address_at_def line_address_def split: sum.splits dest: bst_loop_counter)

lemma parse_loop_keeps:
  "parse_loop split (acc, a) lines = Inr (acc', a') \<Longrightarrow> set acc \<subseteq> set acc'"
proof (induction lines arbitrary: acc a)
  case Nil
  then show ?case by simp
next
  case (Cons line lines)
  show ?case
  proof (cases "parse_line split a line")
    case (Inl e)
    with Cons.prems show ?thesis by simp
  next
    case (Inr r)
    show ?thesis
    proof (cases r)
      case None
      with Inr Cons.prems Cons.IH [of acc a] show ?thesis by simp
    next
      case (Some pInst)
      with Inr Cons.prems Cons.IH [of "acc @ [pInst]" "a + 4"] show ?thesis by simp
    qed
  qed
qed

lemma parse_loop_contains:
  "parse_loop split (acc, a) lines = Inr (acc', a') \<Longrightarrow> line \<in> set lines \<Longrightarrow>
     mnemonic_of line \<noteq> [] \<Longrightarrow> \<exists>pInst \<in> set acc'. originalLine pInst = line"
proof (induction lines arbitrary: acc a)
  case Nil
  then show ?case by simp
next
  case (Cons l lines)
  from Cons.prems(1) obtain r where step: "parse_line split a l = Inr r"
    by (auto split: sum.splits)
  show ?case
  proof (cases r)
    case None
    with step Cons.prems(1) have rest: "parse_loop split (acc, a) lines = Inr (acc', a')"
      by simp
    from None step have "mnemonic_of l = []"
      using parse_line_instruction [of l split a r] by auto
    with Cons.prems have "line \<in> set lines"
      by auto
    from Cons.IH [OF rest this Cons.prems(3)] show ?thesis .
  next
    case (Some pInst)
    with step Cons.prems(1) have rest: "parse_loop split (acc @ [pInst], a + 4) lines = Inr (acc', a')"
      by simp
    show ?thesis
    proof (cases "line = l")
      case True
      have "mnemonic_of l \<noteq> []"
        using Some step by (auto simp: parse_line_skip)
      from parse_line_instruction [OF this step] Some have "originalLine pInst = l"
        by simp
      moreover from parse_loop_keeps [OF rest] have "pInst \<in> set acc'"
        by auto
      ultimately show ?thesis
        using True by blast
    next
      case False
      with Cons.prems have "line \<in> set lines"
        by simp
      from Cons.IH [OF rest this Cons.prems(3)] show ?thesis .
    qed
  qed
qed

lemma label_counter_steps:
  assumes "buildSymbolTable start lines = Inr symbolTable"
    and "i < length lines"
    and "has_label (lines ! i)"
  shows "\<exists>a. address_at start lines i = Some a \<and>
              symbolTable (label_of (lines ! i)) = Some a \<and>
              (\<not> bare_label (lines ! i) \<longrightarrow> address_at start lines (Suc i) = Some (a + 4)) \<and>
              (bare_label (lines ! i) \<longrightarrow>
                 address_at start lines (Suc i) = Some a \<and>
                 (\<forall>j. i < j \<and> j < length lines \<and> instruction_bearing (lines ! j) \<and>
                      (\<forall>k. i < k \<and> k < j \<longrightarrow> \<not> instruction_bearing (lines ! k)) \<longrightarrow>
                      address_at start lines j = Some a))"
proof -
  from assms(1) obtain af where run: "bst_loop (Map.empty, start) lines = Inr (symbolTable, af)"
    by (auto simp: buildSymbolTable_def split: sum.splits)
  from bst_loop_prefix [OF run, of i] obtain t1 a1
    where pre: "bst_loop (Map.empty, start) (take i lines) = Inr (t1, a1)"
      and post: "bst_loop (t1, a1) (drop i lines) = Inr (symbolTable, af)"
    by blast
  from assms(2) have "drop i lines = lines ! i # drop (Suc i) lines"
    by (simp add: Cons_nth_drop_Suc)
  with post obtain t2 a2 where step: "bst_line (t1, a1) (lines ! i) = Inr (t2, a2)"
    and rest: "bst_loop (t2, a2) (drop (Suc i) lines) = Inr (symbolTable, af)"
    by (auto split: sum.splits)
  from step assms(3) have t2: "t2 = t1(label_of (lines ! i) \<mapsto> a1)"
    and a2: "a2 = (if bare_label (lines ! i) then a1 else a1 + 4)"
    by (auto simp: bst_line_label split: if_splits)
  have at_i: "address_at start lines i = Some a1"
    by (simp add: address_at_def pre)
  from bst_loop_map_le [OF rest] have bound: "symbolTable (label_of (lines ! i)) = Some a1"
    by (auto simp: t2 map_le_def)
  from assms(2) have "take (Suc i) lines = take i lines @ [lines ! i]"
    by (simp add: take_Suc_conv_app_nth)
  then have pre_Suc: "bst_loop (Map.empty, start) (take (Suc i) lines) = Inr (t2, a2)"
    by (simp add: bst_loop_append pre step)
  then have at_Suc: "address_at start lines (Suc i) = Some a2"
    by (simp add: address_at_def)
  have later: "address_at start lines j = Some a2"
    if "i < j" "j < length lines" "\<forall>k. i < k \<and> k < j \<longrightarrow> \<not> instruction_bearing (lines ! k)" for j
  proof -
    from bst_loop_prefix [OF rest, of "j - Suc i"] obtain tj aj
      where mid: "bst_loop (t2, a2) (take (j - Suc i) (drop (Suc i) lines)) = Inr (tj, aj)"
      by blast
    have "\<forall>l \<in> set (take (j - Suc i) (drop (Suc i) lines)). \<not> instruction_bearing l"
    proof
      fix l assume "l \<in> set (take (j - Suc i) (drop (Suc i) lines))"
      then obtain m where m: "m < j - Suc i" "m < length lines - Suc i"
        and l: "l = lines ! (Suc i + m)"
        by (auto simp: in_set_conv_nth)
      with that(3) show "\<not> instruction_bearing l"
        by auto
    qed
    from bst_loop_idle [OF mid this] have "aj = a2" .
    moreover from that have "take j lines = take (Suc i) lines @ take (j - Suc i) (drop (Suc i) lines)"
      by (metis Suc_leI le_add_diff_inverse take_add)
    ultimately show ?thesis
      by (simp add: address_at_def bst_loop_append pre_Suc mid)
  qed
  from at_i bound at_Suc later show ?thesis
    by (auto simp: a2)
qed

text \<open>
  C2. The address of a line is the start address plus 4 for every instruction-bearing
  line before it; this is the value \<open>currentAddress\<close> has when the loop of
  \<open>buildSymbolTable\<close> reaches the line. When \<open>buildSymbolTable\<close> returns a table, the label
  of every label-bearing line is bound to the address of its line. When an instruction
  follows the label on the line, the counter is 4 higher at the next line. On a
  bare-label line the counter is not advanced, and the label's address is the address of
  the next instruction-bearing line, whatever bare-label lines stand in between. When
  moreover no line begins with a dot, every line on which pass 1 advances has a mnemonic
  and \<open>parseInstructions\<close> returns, the instruction parsed from a label's line has the
  label's address, and there is such an instruction when the label is not bare.
\<close>

theorem label_binds_counter:
  assumes "buildSymbolTable start lines = Inr symbolTable"
    and "i < length lines"
    and "has_label (lines ! i)"
  shows "address_at start lines i = Some (line_address start lines i) \<and>
         symbolTable (label_of (lines ! i)) = Some (line_address start lines i) \<and>
         (\<not> bare_label (lines ! i) \<longrightarrow>
            address_at start lines (Suc i) = Some (line_address start lines i + 4)) \<and>
         (bare_label (lines ! i) \<longrightarrow>
            address_at start lines (Suc i) = Some (line_address start lines i) \<and>
            (\<forall>j. i < j \<and> j < length lines \<and> instruction_bearing (lines ! j) \<and>
                 (\<forall>k. i < k \<and> k < j \<longrightarrow> \<not> instruction_bearing (lines ! k)) \<longrightarrow>
                 address_at start lines j = Some (line_address start lines i))) \<and>
         (\<forall>split instructions.
            (\<forall>l \<in> set lines. \<not> is_directive l \<and> (instruction_bearing l \<longrightarrow> mnemonic_of l \<noteq> [])) \<and>
            parseInstructions split start lines = Inr instructions \<longrightarrow>
              (\<forall>pInst \<in> set instructions.
                 originalLine pInst = lines ! i \<longrightarrow> address pInst = line_address start lines i) \<and>
              (\<not> bare_label (lines ! i) \<longrightarrow>
                 (\<exists>pInst \<in> set instructions. originalLine pInst = lines ! i)))"
proof -
  from label_counter_steps [OF assms] obtain a
    where at: "address_at start lines i = Some a"
      and bound: "symbolTable (label_of (lines ! i)) = Some a"
      and full: "\<not> bare_label (lines ! i) \<longrightarrow> address_at start lines (Suc i) = Some (a + 4)"
      and bare: "bare_label (lines ! i) \<longrightarrow>
                 address_at start lines (Suc i) = Some a \<and>
                 (\<forall>j. i < j \<and> j < length lines \<and> instruction_bearing (lines ! j) \<and>
                      (\<forall>k. i < k \<and> k < j \<longrightarrow> \<not> instruction_bearing (lines ! k)) \<longrightarrow>
                      address_at start lines j = Some a)"
    by blast
  from at have a: "a = line_address start lines i"
    by (rule address_at_line_address)
  have pass2: "(\<forall>pInst \<in> set instructions.
                 originalLine pInst = lines ! i \<longrightarrow> address pInst = a) \<and>
              (\<not> bare_label (lines ! i) \<longrightarrow>
                 (\<exists>pInst \<in> set instructions. originalLine pInst = lines ! i))"
    if good: "\<forall>l \<in> set lines. \<not> is_directive l \<and> (instruction_bearing l \<longrightarrow> mnemonic_of l \<noteq> [])"
      and parsed: "parseInstructions split start lines = Inr instructions"
    for split instructions
  proof
    from labels_resolve_to_their_instructions [OF good assms(1) parsed] assms(3) bound
    show "\<forall>pInst \<in> set instructions. originalLine pInst = lines ! i \<longrightarrow> address pInst = a"
      by auto
    show "\<not> bare_label (lines ! i) \<longrightarrow> (\<exists>pInst \<in> set instructions. originalLine pInst = lines ! i)"
    proof
      assume nb: "\<not> bare_label (lines ! i)"
      from assms(2) have mem: "lines ! i \<in> set lines"
        by simp
      with good nb have "mnemonic_of (lines ! i) \<noteq> []"
        by (auto simp: instruction_bearing_def)
      moreover from parsed obtain a2 where "parse_loop split ([], start) lines = Inr (instructions, a2)"
        by (auto simp: parseInstructions_def split: sum.splits)
      ultimately show "\<exists>pInst \<in> set instructions. originalLine pInst = lines ! i"
        using mem by (intro parse_loop_contains)
    qed
  qed
  from at bound full bare pass2 show ?thesis
    unfolding a by blast
qed

theorem label_binds_counter_witness:
  "\<exists>symbolTable instructions.
     buildSymbolTable 0x80
       [''nop'', ''nop'', ''main: addi x1, x0, 1'', ''skip:'', ''next:'', ''add x2, x1, x1'']
       = Inr symbolTable \<and>
     parseInstructions split_spec 0x80
       [''nop'', ''nop'', ''main: addi x1, x0, 1'', ''skip:'', ''next:'', ''add x2, x1, x1'']
       = Inr instructions \<and>
     symbolTable ''main'' = Some 0x88 \<and>
     (\<exists>pInst \<in> set instructions.
        originalLine pInst = ''main: addi x1, x0, 1'' \<and> address pInst = 0x88) \<and>
     address_at 0x80
       [''nop'', ''nop'', ''main: addi x1, x0, 1'', ''skip:'', ''next:'', ''add x2, x1, x1''] 3
       = Some 0x8C \<and>
     symbolTable ''skip'' = Some 0x8C \<and>
     address_at 0x80
       [''nop'', ''nop'', ''main: addi x1, x0, 1'', ''skip:'', ''next:'', ''add x2, x1, x1''] 4
       = Some 0x8C \<and>
     address_at 0x80
       [''nop'', ''nop'', ''main: addi x1, x0, 1'', ''skip:'', ''next:'', ''add x2, x1, x1''] 5
       = Some 0x8C"
proof -
  let ?lines = "[''nop'', ''nop'', ''main: addi x1, x0, 1'', ''skip:'', ''next:'', ''add x2, x1, x1'']"
  let ?two = "Suc (Suc 0)"
  let ?three = "Suc (Suc (Suc 0))"
  let ?four = "Suc (Suc (Suc (Suc 0)))"
  let ?five = "Suc (Suc (Suc (Suc (Suc 0))))"
  have ib: "instruction_bearing ''nop''" "instruction_bearing ''main: addi x1, x0, 1''"
    "\<not> instruction_bearing ''skip:''" "\<not> instruction_bearing ''next:''"
    "instruction_bearing ''add x2, x1, x1''"
    by (simp_all add: instruction_bearing_def has_label_def bare_label_def is_directive_def
        label_rest_def erase_leading_def trim_char_def)
  have mn: "mnemonic_of ''nop'' \<noteq> []" "mnemonic_of ''main: addi x1, x0, 1'' \<noteq> []"
    "mnemonic_of ''add x2, x1, x1'' \<noteq> []"
    by (simp_all add: mnemonic_of_def line_body_def label_rest_def extract_word_def
        erase_leading_def trim_char_def isspace_def)
  have good: "\<forall>l \<in> set ?lines. \<not> is_directive l \<and> (instruction_bearing l \<longrightarrow> mnemonic_of l \<noteq> [])"
    using ib mn by (simp add: is_directive_def)
  have nth: "?lines ! ?two = ''main: addi x1, x0, 1''" "?lines ! ?three = ''skip:''"
    and len: "?two < length ?lines" "?three < length ?lines"
    by simp_all
  have main: "has_label ''main: addi x1, x0, 1''" "\<not> bare_label ''main: addi x1, x0, 1''"
    "label_of ''main: addi x1, x0, 1'' = ''main''"
    by (simp_all add: has_label_def bare_label_def is_directive_def label_of_def label_rest_def
        remove_spaces_def erase_leading_def isspace_def trim_char_def)
  have skip: "has_label ''skip:''" "bare_label ''skip:''" "label_of ''skip:'' = ''skip''"
    by (simp_all add: has_label_def bare_label_def is_directive_def label_of_def label_rest_def
        remove_spaces_def erase_leading_def isspace_def trim_char_def)
  have la: "line_address 0x80 ?lines ?two = 0x88" "line_address 0x80 ?lines ?three = 0x8C"
    by (simp_all add: line_address_def ib)
  have "\<exists>symbolTable. buildSymbolTable 0x80 ?lines = Inr symbolTable"
    by (simp add: buildSymbolTable_def bst_line_def substr_def remove_spaces_def
        erase_leading_def isspace_def trim_char_def)
  then obtain symbolTable where run: "buildSymbolTable 0x80 ?lines = Inr symbolTable"
    by blast
  have "\<exists>instructions. parseInstructions split_spec 0x80 ?lines = Inr instructions"
    by (simp add: parseInstructions_def parse_line_def extract_word_def after_word_def
        getline_rest_def split_spec_def erase_leading_def erase_trailing_def isspace_def
        trim_char_def Let_def)
  then obtain instructions where parsed: "parseInstructions split_spec 0x80 ?lines = Inr instructions"
    by blast
  note at_main = label_binds_counter [OF run len(1), unfolded nth la main(3), OF main(1)]
  from at_main have m1: "symbolTable ''main'' = Some 0x88"
    by blast
  from at_main good parsed main(2)
  have m2: "\<exists>pInst \<in> set instructions. originalLine pInst = ''main: addi x1, x0, 1''"
    and m3: "\<forall>pInst \<in> set instructions.
        originalLine pInst = ''main: addi x1, x0, 1'' \<longrightarrow> address pInst = 0x88"
    by blast+
  from m2 m3 have m: "\<exists>pInst \<in> set instructions.
        originalLine pInst = ''main: addi x1, x0, 1'' \<and> address pInst = 0x88"
    by blast
  note at_skip = label_binds_counter [OF run len(2), unfolded nth la skip(3), OF skip(1)]
  from at_skip skip(2)
  have s: "address_at 0x80 ?lines ?three = Some 0x8C" "symbolTable ''skip'' = Some 0x8C"
    "address_at 0x80 ?lines ?four = Some 0x8C"
    and next_one: "\<forall>j. ?three < j \<and> j < length ?lines \<and> instruction_bearing (?lines ! j) \<and>
                      (\<forall>k. ?three < k \<and> k < j \<longrightarrow> \<not> instruction_bearing (?lines ! k)) \<longrightarrow>
                      address_at 0x80 ?lines j = Some 0x8C"
    by blast+
  have "\<forall>k. ?three < k \<and> k < ?five \<longrightarrow> \<not> instruction_bearing (?lines ! k)"
  proof (intro allI impI)
    fix k :: nat assume "?three < k \<and> k < ?five"
    then have "k = ?four" by arith
    with ib show "\<not> instruction_bearing (?lines ! k)" by simp
  qed
  with next_one [rule_format, of ?five] ib
  have five: "address_at 0x80 ?lines ?five = Some 0x8C"
    by simp
  have nums: "(3::nat) = ?three" "(4::nat) = ?four" "(5::nat) = ?five"
    by simp_all
  from run parsed m1 m s five show ?thesis
    unfolding nums by blast
qed

section \<open>Bare labels share an address\<close>

text \<open>
  C10. Two consecutive bare-label lines followed by an instruction line: both labels are
  bound to the same address (the start address), so the table is not injective on its
  labels and the addresses of label-bearing lines do not strictly increase.
\<close>

theorem two_bare_labels_share_address:
  "\<exists>symbolTable.
     buildSymbolTable start [''first:'', ''second:'', ''addi x1, x0, 1''] = Inr symbolTable \<and>
     symbolTable ''first'' = Some start \<and>
     symbolTable ''second'' = Some start \<and>
     ''first'' \<noteq> ''second'' \<and>
     \<not> inj_on symbolTable (dom symbolTable)"
proof -
  let ?tab = "[''first'' \<mapsto> start, ''second'' \<mapsto> start] :: symtab"
  have run: "buildSymbolTable start [''first:'', ''second:'', ''addi x1, x0, 1''] = Inr ?tab"
    by (simp add: buildSymbolTable_def bst_line_def substr_def remove_spaces_def
        erase_leading_def isspace_def trim_char_def)
  have "\<not> inj_on ?tab (dom ?tab)"
    by (auto simp: inj_on_def)
  with run show ?thesis
    by auto
qed

end
